theory Spec2Isabelle
  imports Complex_Main
begin

chapter \<open>The portfolio page's behaviour layer (script.js)\<close>

text \<open>
  A shallow embedding of the parts of \<^verbatim>\<open>src/script.js\<close> that the specification
  talks about. Every component of the script keeps its state in module-level variables,
  closure variables or DOM nodes; here that state is a record which each function takes
  and returns. Strings are lists of code units (the development stays in the Latin-1
  range). Values that the browser supplies (the stored preference, the window size, the
  outcomes of \<^verbatim>\<open>Math.random()\<close>, the intersection changes of a frame) are arguments.
\<close>

section \<open>Model\<close>

subsection \<open>Theme system\<close>

text \<open>
  \<^verbatim>\<open>let currentTheme = localStorage.getItem('theme') || 'dark';\<close>
  \<^verbatim>\<open>getItem\<close> answers \<^verbatim>\<open>null\<close> for an absent key (here \<open>None\<close>); \<^verbatim>\<open>||\<close> takes its right
  operand when the left one is falsy, which for a string means empty.
\<close>

definition js_or_default :: "string option \<Rightarrow> string \<Rightarrow> string" where
  "js_or_default v d = (case v of None \<Rightarrow> d | Some s \<Rightarrow> if s = [] then d else s)"

text \<open>
  The browser environment at page load: the stored value of the key \<^verbatim>\<open>theme\<close>, the
  operating system's colour scheme as \<^verbatim>\<open>window.matchMedia\<close> would report it (\<open>None\<close>
  when \<^verbatim>\<open>matchMedia\<close> is unavailable, \<open>Some True\<close> when dark is preferred), and whether
  the element \<^verbatim>\<open>#theme-switcher\<close> exists.
\<close>

record theme_env =
  stored_theme :: "string option"
  os_prefers_dark :: "bool option"
  has_switcher :: bool

record theme_state =
  currentTheme :: string
  data_theme :: "string option"
  local_storage :: "string option"
  themeSwitcher :: bool
  thumb_transform :: string
  click_listener :: bool
  media_listener :: bool
  theme_events :: "string list"

definition load_script :: "theme_env \<Rightarrow> theme_state" where
  "load_script env =
     \<lparr> currentTheme = js_or_default (stored_theme env) ''dark'',
       data_theme = None,
       local_storage = stored_theme env,
       themeSwitcher = has_switcher env,
       thumb_transform = [],
       click_listener = False,
       media_listener = False,
       theme_events = [] \<rparr>"

definition updateThemeSwitcher :: "theme_state \<Rightarrow> theme_state" where
  "updateThemeSwitcher s =
     (if themeSwitcher s
      then (if currentTheme s = ''dark''
            then s\<lparr>thumb_transform := ''translateX(30px)''\<rparr>
            else s\<lparr>thumb_transform := ''translateX(0)''\<rparr>)
      else s)"

text \<open>
  \<^verbatim>\<open>initializeTheme\<close> writes the attribute, moves the switch and registers two
  listeners. It asks \<^verbatim>\<open>window.matchMedia\<close> only for the listener registration: the
  query's current answer (\<^verbatim>\<open>mediaQuery.matches\<close>) is never read.
\<close>

definition initializeTheme :: "theme_env \<Rightarrow> theme_state \<Rightarrow> theme_state" where
  "initializeTheme env s =
     (let s1 = updateThemeSwitcher (s\<lparr>data_theme := Some (currentTheme s)\<rparr>);
          s2 = (if themeSwitcher s1 then s1\<lparr>click_listener := True\<rparr> else s1)
      in if os_prefers_dark env \<noteq> None then s2\<lparr>media_listener := True\<rparr> else s2)"

definition toggleTheme :: "theme_state \<Rightarrow> theme_state" where
  "toggleTheme s =
     (let t = (if currentTheme s = ''dark'' then ''light'' else ''dark'');
          s1 = updateThemeSwitcher
                 (s\<lparr>currentTheme := t, data_theme := Some t, local_storage := Some t\<rparr>)
      in s1\<lparr>theme_events := theme_events s1 @ [t]\<rparr>)"

definition handleSystemThemeChange :: "bool \<Rightarrow> theme_state \<Rightarrow> theme_state" where
  "handleSystemThemeChange matches s =
     (if js_or_default (local_storage s) [] = []
      then (let t = (if matches then ''dark'' else ''light'')
            in updateThemeSwitcher (s\<lparr>currentTheme := t, data_theme := Some t\<rparr>))
      else s)"

text \<open>Page start: the script is loaded, then \<^verbatim>\<open>initializeApp\<close> calls \<^verbatim>\<open>initializeTheme\<close>.\<close>

definition theme_startup :: "theme_env \<Rightarrow> theme_state" where
  "theme_startup env = initializeTheme env (load_script env)"

text \<open>
  The precedence as the specification words it: the stored value, else the operating
  system's preference, else dark.
\<close>

definition spec_theme_precedence :: "theme_env \<Rightarrow> string" where
  "spec_theme_precedence env =
     (case stored_theme env of
        Some v \<Rightarrow> v
      | None \<Rightarrow> (case os_prefers_dark env of
                   Some True \<Rightarrow> ''dark''
                 | Some False \<Rightarrow> ''light''
                 | None \<Rightarrow> ''dark''))"

subsection \<open>Matrix background\<close>

text \<open>
  The closure of \<^verbatim>\<open>initializeMatrixBackground\<close>: the canvas dimensions and the array
  \<^verbatim>\<open>drops\<close>. \<^verbatim>\<open>columns\<close> and \<^verbatim>\<open>drops\<close> are \<^verbatim>\<open>const\<close> and computed once, after the first
  \<^verbatim>\<open>resizeCanvas()\<close>. Window sizes are natural numbers, so \<^verbatim>\<open>Math.floor(w / 20)\<close> is
  \<open>w div 20\<close>. What is painted on the canvas is left out; the state is not.
\<close>

record matrix_state =
  canvas_width :: nat
  canvas_height :: nat
  drops :: "nat list"

definition resizeCanvas :: "nat \<Rightarrow> nat \<Rightarrow> matrix_state \<Rightarrow> matrix_state" where
  "resizeCanvas innerWidth innerHeight m =
     m\<lparr>canvas_width := innerWidth, canvas_height := innerHeight\<rparr>"

definition initializeMatrixBackground :: "nat \<Rightarrow> nat \<Rightarrow> matrix_state" where
  "initializeMatrixBackground innerWidth innerHeight =
     (let m = resizeCanvas innerWidth innerHeight
                \<lparr>canvas_width = 0, canvas_height = 0, drops = []\<rparr>
      in m\<lparr>drops := replicate (canvas_width m div 20) 0\<rparr>)"

text \<open>
  One column of \<^verbatim>\<open>drawMatrix\<close>. The argument \<open>r\<close> is the outcome of
  \<^verbatim>\<open>Math.random() > 0.975\<close> for this column (it is consulted only when the first
  conjunct holds, as \<^verbatim>\<open>&&\<close> does).
\<close>

definition advance_drop :: "nat \<Rightarrow> bool \<Rightarrow> nat \<Rightarrow> nat" where
  "advance_drop height r d = (if d * 20 > height \<and> r then 0 else d) + 1"

fun draw_columns :: "nat \<Rightarrow> (nat \<Rightarrow> bool) \<Rightarrow> nat \<Rightarrow> nat list \<Rightarrow> nat list" where
  "draw_columns height rnd i [] = []"
| "draw_columns height rnd i (d # ds) =
     advance_drop height (rnd i) d # draw_columns height rnd (Suc i) ds"

definition drawMatrix :: "(nat \<Rightarrow> bool) \<Rightarrow> matrix_state \<Rightarrow> matrix_state" where
  "drawMatrix rnd m = m\<lparr>drops := draw_columns (canvas_height m) rnd 0 (drops m)\<rparr>"

text \<open>
  What happens to the effect after its initialisation: the debounced resize handler runs
  \<^verbatim>\<open>resizeCanvas\<close> with the window's new size, or the 50 ms interval runs \<^verbatim>\<open>drawMatrix\<close>.
\<close>

datatype matrix_event = Resized nat nat | Tick "nat \<Rightarrow> bool"

fun matrix_step :: "matrix_state \<Rightarrow> matrix_event \<Rightarrow> matrix_state" where
  "matrix_step m (Resized w h) = resizeCanvas w h m"
| "matrix_step m (Tick rnd) = drawMatrix rnd m"

definition matrix_run :: "matrix_event list \<Rightarrow> matrix_state \<Rightarrow> matrix_state" where
  "matrix_run evs m = foldl matrix_step m evs"

subsection \<open>Typing animation\<close>

datatype js_error = TypeError

text \<open>
  \<^verbatim>\<open>s.substring(0, n)\<close>: an end below 0 counts as 0 and an end beyond the length as
  the length.
\<close>

definition substring0 :: "string \<Rightarrow> int \<Rightarrow> string" where
  "substring0 s n = take (nat n) s"

text \<open>The playlist of the script.\<close>

definition texts :: "string list" where
  "texts = [''Full-Stack Developer'', ''React.js Developer'', ''UI/UX Designer'',
            ''Problem Solver'', ''Computer Science Student'']"

text \<open>The closure variables of \<^verbatim>\<open>initializeTypingAnimation\<close>.\<close>

record typing_state =
  textIndex :: nat
  charIndex :: int
  isDeleting :: bool

text \<open>
  One run of \<^verbatim>\<open>typeText\<close> over a playlist \<open>pl\<close> (the script's is \<^const>\<open>texts\<close>): the
  new closure state, the text written to \<^verbatim>\<open>typingText.textContent\<close> and the delay passed
  to \<^verbatim>\<open>setTimeout\<close>. When \<^verbatim>\<open>texts[textIndex]\<close> is \<^verbatim>\<open>undefined\<close> the call of \<^verbatim>\<open>substring\<close>
  throws and nothing is rescheduled.
\<close>

definition typeText :: "string list \<Rightarrow> typing_state \<Rightarrow> js_error + (typing_state \<times> string \<times> nat)" where
  "typeText pl st =
     (if textIndex st < length pl
      then (let currentText = pl ! textIndex st;
                shown = (if isDeleting st then substring0 currentText (charIndex st - 1)
                         else substring0 currentText (charIndex st + 1));
                ci = (if isDeleting st then charIndex st - 1 else charIndex st + 1);
                typeSpeed = (if isDeleting st then 50 else 100)
            in if \<not> isDeleting st \<and> ci = int (length currentText)
               then Inr (st\<lparr>charIndex := ci, isDeleting := True\<rparr>, shown, 2000)
               else if isDeleting st \<and> ci = 0
               then Inr (st\<lparr>charIndex := ci, isDeleting := False,
                            textIndex := (textIndex st + 1) mod length pl\<rparr>, shown, 500)
               else Inr (st\<lparr>charIndex := ci\<rparr>, shown, typeSpeed))
      else Inl TypeError)"

definition typing_start :: typing_state where
  "typing_start = \<lparr>textIndex = 0, charIndex = 0, isDeleting = False\<rparr>"

text \<open>The texts shown and the delays requested by the first \<open>n\<close> runs of \<^verbatim>\<open>typeText\<close>.\<close>

fun typing_trace :: "string list \<Rightarrow> nat \<Rightarrow> typing_state \<Rightarrow> (string \<times> nat) list" where
  "typing_trace pl 0 st = []"
| "typing_trace pl (Suc n) st =
     (case typeText pl st of
        Inl e \<Rightarrow> []
      | Inr (st', shown, delay) \<Rightarrow> (shown, delay) # typing_trace pl n st')"

fun typing_after :: "string list \<Rightarrow> nat \<Rightarrow> typing_state \<Rightarrow> typing_state" where
  "typing_after pl 0 st = st"
| "typing_after pl (Suc n) st =
     (case typeText pl st of
        Inl e \<Rightarrow> st
      | Inr (st', shown, delay) \<Rightarrow> typing_after pl n st')"

text \<open>
  The page around the closure: the text of \<^verbatim>\<open>#typing-text\<close> (\<open>None\<close> when the element
  is missing), the module variable \<^verbatim>\<open>typingAnimationRunning\<close>, and the pending
  \<^verbatim>\<open>setTimeout(typeText, delay)\<close> calls, each with the state of the closure it belongs to.
\<close>

record typing_page =
  typingText :: "string option"
  typingAnimationRunning :: bool
  typing_timers :: "(nat \<times> typing_state) list"

definition initializeTypingAnimation :: "string list \<Rightarrow> typing_page \<Rightarrow> typing_page" where
  "initializeTypingAnimation pl p =
     (if typingText p = None \<or> typingAnimationRunning p then p
      else p\<lparr>typingAnimationRunning := True,
             typing_timers := typing_timers p @ [(1000, typing_start)]\<rparr>)"

text \<open>The \<open>k\<close>-th pending timer fires.\<close>

definition fire_typing_timer :: "string list \<Rightarrow> nat \<Rightarrow> typing_page \<Rightarrow> typing_page" where
  "fire_typing_timer pl k p =
     (if k < length (typing_timers p)
      then (case typeText pl (snd (typing_timers p ! k)) of
              Inl e \<Rightarrow> p\<lparr>typing_timers := take k (typing_timers p) @ drop (Suc k) (typing_timers p)\<rparr>
            | Inr (st', shown, delay) \<Rightarrow>
                p\<lparr>typingText := Some shown,
                  typing_timers := (typing_timers p)[k := (delay, st')]\<rparr>)
      else p)"

datatype typing_event = Initialize | Fire nat

fun typing_step :: "string list \<Rightarrow> typing_page \<Rightarrow> typing_event \<Rightarrow> typing_page" where
  "typing_step pl p Initialize = initializeTypingAnimation pl p"
| "typing_step pl p (Fire k) = fire_typing_timer pl k p"

definition typing_run :: "string list \<Rightarrow> typing_event list \<Rightarrow> typing_page \<Rightarrow> typing_page" where
  "typing_run pl evs p = foldl (typing_step pl) p evs"

definition typing_page_loaded :: "string option \<Rightarrow> typing_page" where
  "typing_page_loaded el = \<lparr>typingText = el, typingAnimationRunning = False, typing_timers = []\<rparr>"

subsection \<open>One-shot intersection observers\<close>

text \<open>
  \<^verbatim>\<open>statsObserver\<close> and \<^verbatim>\<open>lazyImageObserver\<close>. Elements are numbered. An observer holds
  its observation targets; \<open>fired\<close> records, in order, the targets on which the callback
  did its work (\<^verbatim>\<open>animateStatValue(entry.target)\<close>, or loading the image).
\<close>

record once_observer =
  observing :: "nat list"
  fired :: "nat list"

definition observe :: "nat \<Rightarrow> once_observer \<Rightarrow> once_observer" where
  "observe t ob = (if t \<in> set (observing ob) then ob
                   else ob\<lparr>observing := observing ob @ [t]\<rparr>)"

definition unobserve :: "nat \<Rightarrow> once_observer \<Rightarrow> once_observer" where
  "unobserve t ob = ob\<lparr>observing := removeAll t (observing ob)\<rparr>"

text \<open>An entry is a target with its \<^verbatim>\<open>isIntersecting\<close>. The body of the callbacks' \<^verbatim>\<open>forEach\<close>:\<close>

definition once_entry :: "once_observer \<Rightarrow> nat \<times> bool \<Rightarrow> once_observer" where
  "once_entry ob e =
     (if snd e then unobserve (fst e) (ob\<lparr>fired := fired ob @ [fst e]\<rparr>) else ob)"

definition statsObserver_callback :: "(nat \<times> bool) list \<Rightarrow> once_observer \<Rightarrow> once_observer" where
  "statsObserver_callback entries ob = foldl once_entry ob entries"

definition lazyImageObserver_callback :: "(nat \<times> bool) list \<Rightarrow> once_observer \<Rightarrow> once_observer" where
  "lazyImageObserver_callback entries ob = foldl once_entry ob entries"

text \<open>
  The browser's side. One pass over the observation targets queues at most one entry
  per target, for the targets whose intersection changed (\<open>change t = Some b\<close>, with
  \<open>b\<close> the new \<^verbatim>\<open>isIntersecting\<close>), and the callback is then called with the queued entries
  if there are any.
\<close>

definition queued_entries :: "(nat \<Rightarrow> bool option) \<Rightarrow> once_observer \<Rightarrow> (nat \<times> bool) list" where
  "queued_entries change ob =
     concat (map (\<lambda>t. case change t of None \<Rightarrow> [] | Some b \<Rightarrow> [(t, b)]) (observing ob))"

definition stats_frame :: "once_observer \<Rightarrow> (nat \<Rightarrow> bool option) \<Rightarrow> once_observer" where
  "stats_frame ob change =
     (let es = queued_entries change ob in if es = [] then ob else statsObserver_callback es ob)"

definition lazy_frame :: "once_observer \<Rightarrow> (nat \<Rightarrow> bool option) \<Rightarrow> once_observer" where
  "lazy_frame ob change =
     (let es = queued_entries change ob in if es = [] then ob else lazyImageObserver_callback es ob)"

text \<open>
  \<^verbatim>\<open>setupIntersectionObserver\<close> and \<^verbatim>\<open>setupLazyLoading\<close> observe every element that
  \<^verbatim>\<open>querySelectorAll\<close> found.
\<close>

definition observe_all :: "nat list \<Rightarrow> once_observer" where
  "observe_all els = foldl (\<lambda>ob t. observe t ob) \<lparr>observing = [], fired = []\<rparr> els"

subsection \<open>Strings and regular expressions of the platform\<close>

text \<open>
  The characters that \<^verbatim>\<open>String.prototype.trim\<close> strips and that \<^verbatim>\<open>\s\<close> matches, within
  Latin-1: tab, line feed, vertical tab, form feed, carriage return, space and the
  no-break space.
\<close>

definition js_whitespace :: "char \<Rightarrow> bool" where
  "js_whitespace c \<longleftrightarrow>
     c \<in> set [CHR 0x09, CHR 0x0A, CHR 0x0B, CHR 0x0C, CHR 0x0D, CHR 0x20, CHR 0xA0]"

definition trim :: "string \<Rightarrow> string" where
  "trim s = rev (dropWhile js_whitespace (rev (dropWhile js_whitespace s)))"

text \<open>
  Regular expressions over character classes, matched with derivatives. \<^verbatim>\<open>test\<close> of a
  pattern anchored with \<^verbatim>\<open>^\<close> and \<^verbatim>\<open>$\<close> (and without flags) asks whether the whole string
  is in the pattern's language.
\<close>

datatype rexp = Zero | One | Atom "char \<Rightarrow> bool" | Alt rexp rexp | Times rexp rexp | Star rexp

fun nullable :: "rexp \<Rightarrow> bool" where
  "nullable Zero = False"
| "nullable One = True"
| "nullable (Atom p) = False"
| "nullable (Alt r s) = (nullable r \<or> nullable s)"
| "nullable (Times r s) = (nullable r \<and> nullable s)"
| "nullable (Star r) = True"

fun deriv :: "char \<Rightarrow> rexp \<Rightarrow> rexp" where
  "deriv c Zero = Zero"
| "deriv c One = Zero"
| "deriv c (Atom p) = (if p c then One else Zero)"
| "deriv c (Alt r s) = Alt (deriv c r) (deriv c s)"
| "deriv c (Times r s) =
     (if nullable r then Alt (Times (deriv c r) s) (deriv c s) else Times (deriv c r) s)"
| "deriv c (Star r) = Times (deriv c r) (Star r)"

fun regex_test :: "rexp \<Rightarrow> string \<Rightarrow> bool" where
  "regex_test r [] = nullable r"
| "regex_test r (c # cs) = regex_test (deriv c r) cs"

definition one_or_more :: "rexp \<Rightarrow> rexp" where
  "one_or_more r = Times r (Star r)"

text \<open>\<^verbatim>\<open>/^[^\s@]+@[^\s@]+\.[^\s@]+$/\<close>\<close>

definition email_char :: "char \<Rightarrow> bool" where
  "email_char c \<longleftrightarrow> \<not> js_whitespace c \<and> c \<noteq> CHR ''@''"

definition emailPattern :: rexp where
  "emailPattern =
     Times (one_or_more (Atom email_char))
       (Times (Atom (\<lambda>c. c = CHR ''@''))
         (Times (one_or_more (Atom email_char))
           (Times (Atom (\<lambda>c. c = CHR ''.''))
             (one_or_more (Atom email_char)))))"

subsection \<open>Contact form: field validation\<close>

text \<open>
  The element \<^verbatim>\<open>field.closest('.form-group')\<close>, as far as the script touches it: its
  class \<^verbatim>\<open>error\<close> and the text of its child \<^verbatim>\<open>.error-message\<close> (\<open>None\<close> when there is no
  such child). Every field is taken to have a form group of its own, as the page's
  markup is meant to provide.
\<close>

record form_group =
  error_class :: bool
  error_message :: "string option"

record field =
  field_name :: string
  required :: bool
  field_type :: string
  field_value :: string
  default_value :: string
  formGroup :: form_group

definition showFieldError :: "form_group \<Rightarrow> string \<Rightarrow> form_group" where
  "showFieldError g message = g\<lparr>error_message := Some message\<rparr>"

definition hideFieldError :: "form_group \<Rightarrow> form_group" where
  "hideFieldError g = g\<lparr>error_message := None\<rparr>"

text \<open>
  \<^verbatim>\<open>validateField\<close> answers \<^verbatim>\<open>isValid\<close> and leaves the field's form group changed. The
  two checks run one after the other, and the second overwrites the message of the first.
\<close>

definition validateField :: "field \<Rightarrow> bool \<times> field" where
  "validateField f =
     (let (isValid, errorMessage) = (True, []);
          (isValid, errorMessage) =
            (if required f \<and> trim (field_value f) = []
             then (False, ''This field is required'') else (isValid, errorMessage));
          (isValid, errorMessage) =
            (if field_type f = ''email'' \<and> field_value f \<noteq> []
             then (if \<not> regex_test emailPattern (field_value f)
                   then (False, ''Please enter a valid email address'')
                   else (isValid, errorMessage))
             else (isValid, errorMessage))
      in if \<not> isValid
         then (False, f\<lparr>formGroup :=
                 showFieldError ((formGroup f)\<lparr>error_class := True\<rparr>) errorMessage\<rparr>)
         else (True, f\<lparr>formGroup :=
                 hideFieldError ((formGroup f)\<lparr>error_class := False\<rparr>)\<rparr>))"

subsection \<open>Notifications, form submission and timers\<close>

text \<open>
  A notification element: its text, the \<^verbatim>\<open>type\<close> it was created with, its colours,
  whether it is shown (opacity 1, \<^verbatim>\<open>translateX(0)\<close>) or hidden (opacity 0,
  \<^verbatim>\<open>translateX(100%)\<close>), and whether it is still a child of \<^verbatim>\<open>document.body\<close>.
\<close>

record notification =
  note_message :: string
  note_type :: string
  note_background :: string
  note_border :: string
  note_shown :: bool
  note_attached :: bool

definition notification_colours :: "string \<Rightarrow> string \<times> string" where
  "notification_colours ty =
     (if ty = ''success'' then (''linear-gradient(135deg, #00f5ff, #00d4ff)'', ''#00f5ff'')
      else if ty = ''error'' then (''linear-gradient(135deg, #fb5607, #ff006e)'', ''#fb5607'')
      else if ty = ''warning'' then (''linear-gradient(135deg, #ffbe0b, #fb8500)'', ''#ffbe0b'')
      else (''linear-gradient(135deg, #8338ec, #3a86ff)'', ''#8338ec''))"

text \<open>
  The callbacks that the script passes to \<^verbatim>\<open>setTimeout\<close>. Notifications are numbered in
  the order of their creation.
\<close>

datatype task =
    AnimateIn nat
  | AnimateOut nat
  | RemoveNotification nat
  | CompleteSubmit string
  | ClearFormAnimation

record submit_button =
  btn_disabled :: bool
  btn_text :: string
  btn_loading :: bool

text \<open>What is handed to the mail client: the parts of the \<^verbatim>\<open>mailto:\<close> link, not yet encoded.\<close>

record mail_handoff =
  mail_to :: string
  mail_subject :: string
  mail_body :: string

text \<open>
  The page: a clock in milliseconds, the pending timers with the time each is due (in
  the order of their creation), the notifications, and the contact form.
\<close>

record world =
  now :: nat
  timers :: "(nat \<times> task) list"
  notifications :: "notification list"
  form_inputs :: "field list"
  submitBtn :: submit_button
  location_href :: "mail_handoff option"
  form_animation :: string

definition setTimeout :: "task \<Rightarrow> nat \<Rightarrow> world \<Rightarrow> world" where
  "setTimeout f delay w = w\<lparr>timers := timers w @ [(now w + delay, f)]\<rparr>"

definition showNotification :: "string \<Rightarrow> string \<Rightarrow> world \<Rightarrow> world" where
  "showNotification message ty w =
     (let i = length (notifications w);
          n = \<lparr> note_message = message, note_type = ty,
                note_background = fst (notification_colours ty),
                note_border = snd (notification_colours ty),
                note_shown = False, note_attached = True \<rparr>;
          w1 = w\<lparr>notifications := notifications w @ [n]\<rparr>;
          w2 = setTimeout (AnimateIn i) 100 w1
      in setTimeout (AnimateOut i) 5000 w2)"

definition set_shown :: "nat \<Rightarrow> bool \<Rightarrow> world \<Rightarrow> world" where
  "set_shown i b w =
     (if i < length (notifications w)
      then w\<lparr>notifications := (notifications w)[i := (notifications w ! i)\<lparr>note_shown := b\<rparr>]\<rparr>
      else w)"

text \<open>\<^verbatim>\<open>if (notification.parentNode) { notification.remove(); }\<close>\<close>

definition remove_notification :: "nat \<Rightarrow> world \<Rightarrow> world" where
  "remove_notification i w =
     (if i < length (notifications w) \<and> note_attached (notifications w ! i)
      then w\<lparr>notifications :=
              (notifications w)[i := (notifications w ! i)\<lparr>note_attached := False\<rparr>]\<rparr>
      else w)"

text \<open>The click listener of notification \<open>i\<close>; only an element in the document is clicked.\<close>

definition click_notification :: "nat \<Rightarrow> world \<Rightarrow> world" where
  "click_notification i w =
     (if i < length (notifications w) \<and> note_attached (notifications w ! i)
      then setTimeout (RemoveNotification i) 300 (set_shown i False w)
      else w)"

text \<open>\<^verbatim>\<open>formData.get(name)\<close>, as the template literal renders it.\<close>

definition form_get :: "string \<Rightarrow> field list \<Rightarrow> string" where
  "form_get n fs = (case find (\<lambda>f. field_name f = n) fs of
                      None \<Rightarrow> ''null'' | Some f \<Rightarrow> field_value f)"

definition complete_submit :: "string \<Rightarrow> world \<Rightarrow> world" where
  "complete_submit originalText w =
     (let name = form_get ''name'' (form_inputs w);
          email = form_get ''email'' (form_inputs w);
          subject = form_get ''subject'' (form_inputs w);
          message = form_get ''message'' (form_inputs w);
          w1 = w\<lparr>location_href := Some
                 \<lparr> mail_to = ''22bce139@nirmauni.ac.in'', mail_subject = subject,
                   mail_body = ''Name: '' @ name @ [CHR 0x0A] @ ''Email: '' @ email
                     @ [CHR 0x0A, CHR 0x0A] @ ''Message:'' @ [CHR 0x0A] @ message \<rparr>\<rparr>;
          w2 = w1\<lparr>form_inputs := map (\<lambda>f. f\<lparr>field_value := default_value f\<rparr>) (form_inputs w1)\<rparr>;
          w3 = w2\<lparr>submitBtn := \<lparr>btn_disabled = False, btn_text = originalText,
                                  btn_loading = False\<rparr>\<rparr>;
          w4 = showNotification
                 ''Message sent successfully! Your email client should open shortly.''
                 ''success'' w3;
          w5 = w4\<lparr>form_animation := ''pulse 0.5s ease''\<rparr>
      in setTimeout ClearFormAnimation 500 w5)"

fun fire :: "task \<Rightarrow> world \<Rightarrow> world" where
  "fire (AnimateIn i) w = set_shown i True w"
| "fire (AnimateOut i) w = setTimeout (RemoveNotification i) 300 (set_shown i False w)"
| "fire (RemoveNotification i) w = remove_notification i w"
| "fire (CompleteSubmit originalText) w = complete_submit originalText w"
| "fire ClearFormAnimation w = w\<lparr>form_animation := []\<rparr>"

definition handleFormSubmit :: "world \<Rightarrow> world" where
  "handleFormSubmit w =
     (let results = map validateField (form_inputs w);
          isFormValid = list_all fst results;
          w1 = w\<lparr>form_inputs := map snd results\<rparr>
      in if \<not> isFormValid
         then showNotification ''Please correct the errors above'' ''error'' w1
         else (let originalText = btn_text (submitBtn w1);
                   w2 = w1\<lparr>submitBtn := \<lparr>btn_disabled = True, btn_text = ''Sending...'',
                                           btn_loading = True\<rparr>\<rparr>
               in setTimeout (CompleteSubmit originalText) 2000 w2))"

text \<open>
  The event loop. Among the timers due by time \<open>t\<close> the one due first runs first, and of
  two due at the same time the one created first; \<open>pick\<close> answers it together with the
  timers that remain.
\<close>

fun pick :: "nat \<Rightarrow> (nat \<times> task) list \<Rightarrow> ((nat \<times> task) \<times> (nat \<times> task) list) option" where
  "pick t [] = None"
| "pick t (x # xs) =
     (case pick t xs of
        None \<Rightarrow> (if fst x \<le> t then Some (x, xs) else None)
      | Some (y, ys) \<Rightarrow> (if fst x \<le> fst y then Some (x, xs) else Some (y, x # ys)))"

fun weight :: "task \<Rightarrow> nat" where
  "weight (AnimateIn i) = 1"
| "weight (AnimateOut i) = 2"
| "weight (RemoveNotification i) = 1"
| "weight (CompleteSubmit s) = 5"
| "weight ClearFormAnimation = 1"

definition pending_weight :: "world \<Rightarrow> nat" where
  "pending_weight w = sum_list (map (\<lambda>x. weight (snd x)) (timers w))"

lemma pick_weight:
  "pick t ts = Some (x, rest) \<Longrightarrow>
     sum_list (map (\<lambda>x. weight (snd x)) ts)
       = weight (snd x) + sum_list (map (\<lambda>x. weight (snd x)) rest)"
  by (induction ts arbitrary: x rest) (auto split: option.splits if_splits)

lemma fire_weight:
  "pending_weight (fire f w) < weight f + pending_weight w"
  by (cases f)
     (simp_all add: pending_weight_def setTimeout_def set_shown_def remove_notification_def
        complete_submit_def showNotification_def Let_def)

text \<open>Time passes until \<open>t\<close>: every timer due by then runs, at the time it is due.\<close>

function run_until :: "nat \<Rightarrow> world \<Rightarrow> world" where
  "run_until t w =
     (case pick t (timers w) of
        None \<Rightarrow> w\<lparr>now := max (now w) t\<rparr>
      | Some ((due, f), rest) \<Rightarrow>
          run_until t (fire f (w\<lparr>now := max (now w) due, timers := rest\<rparr>)))"
  by pat_completeness auto
termination
proof (relation "measure (\<lambda>(t, w). pending_weight w)")
  show "wf (measure (\<lambda>(t, w). pending_weight w))" by simp
next
  fix t :: nat and w :: world and x2 x y rest due f
  assume p: "pick t (timers w) = Some x2" and x2: "(x, rest) = x2" and x: "(due, f) = x"
  have "pick t (timers w) = Some ((due, f), rest)" using p x2 x by simp
  from pick_weight [OF this]
  have "pending_weight w = weight f + pending_weight (w\<lparr>now := max (now w) due, timers := rest\<rparr>)"
    by (simp add: pending_weight_def)
  moreover have "pending_weight (fire f (w\<lparr>now := max (now w) due, timers := rest\<rparr>))
      < weight f + pending_weight (w\<lparr>now := max (now w) due, timers := rest\<rparr>)"
    by (rule fire_weight)
  ultimately show "((t, fire f (w\<lparr>now := max (now w) due, timers := rest\<rparr>)), (t, w))
      \<in> measure (\<lambda>(t, w). pending_weight w)"
    by simp
qed

declare run_until.simps [simp del]

definition page_loaded :: "field list \<Rightarrow> string \<Rightarrow> world" where
  "page_loaded fs label =
     \<lparr> now = 0, timers = [], notifications = [], form_inputs = fs,
       submitBtn = \<lparr>btn_disabled = False, btn_text = label, btn_loading = False\<rparr>,
       location_href = None, form_animation = [] \<rparr>"

subsection \<open>The language of a pattern\<close>

definition conc :: "string set \<Rightarrow> string set \<Rightarrow> string set" where
  "conc A B = {xs @ ys | xs ys. xs \<in> A \<and> ys \<in> B}"

inductive_set star :: "string set \<Rightarrow> string set" for A :: "string set" where
  star_empty: "[] \<in> star A"
| star_step: "u \<in> A \<Longrightarrow> v \<in> star A \<Longrightarrow> u @ v \<in> star A"

fun lang :: "rexp \<Rightarrow> string set" where
  "lang Zero = {}"
| "lang One = {[]}"
| "lang (Atom p) = {[c] | c. p c}"
| "lang (Alt r s) = lang r \<union> lang s"
| "lang (Times r s) = conc (lang r) (lang s)"
| "lang (Star r) = star (lang r)"

text \<open>What the pattern of \<^const>\<open>emailPattern\<close> says in words.\<close>

definition email_shape :: "string \<Rightarrow> bool" where
  "email_shape v \<longleftrightarrow>
     (\<exists>a b c. v = a @ ''@'' @ b @ ''.'' @ c
        \<and> a \<noteq> [] \<and> b \<noteq> [] \<and> c \<noteq> []
        \<and> list_all email_char a \<and> list_all email_char b \<and> list_all email_char c)"

subsection \<open>Derived notions for the timers of notifications\<close>

text \<open>The notification a task works on.\<close>

fun task_notification :: "task \<Rightarrow> nat option" where
  "task_notification (AnimateIn i) = Some i"
| "task_notification (AnimateOut i) = Some i"
| "task_notification (RemoveNotification i) = Some i"
| "task_notification (CompleteSubmit s) = None"
| "task_notification ClearFormAnimation = None"

text \<open>Pending timers work on notifications that exist.\<close>

definition wf_world :: "world \<Rightarrow> bool" where
  "wf_world w \<longleftrightarrow>
     (\<forall>x \<in> set (timers w). \<forall>i. task_notification (snd x) = Some i \<longrightarrow> i < length (notifications w))"

text \<open>
  The time at which a pending timer, if nothing else happened, would lead to the removal
  of notification \<open>i\<close> when the clock reads \<open>n\<close>: a removal when it is due, a fade-out 300 ms
  after it runs.
\<close>

fun removal_time :: "nat \<Rightarrow> nat \<Rightarrow> nat \<times> task \<Rightarrow> nat option" where
  "removal_time n i (d, RemoveNotification j) = (if j = i then Some d else None)"
| "removal_time n i (d, AnimateOut j) = (if j = i then Some (max n d + 300) else None)"
| "removal_time n i (d, AnimateIn j) = None"
| "removal_time n i (d, CompleteSubmit s) = None"
| "removal_time n i (d, ClearFormAnimation) = None"

definition removal_times :: "world \<Rightarrow> nat \<Rightarrow> nat set" where
  "removal_times w i = {r. \<exists>x \<in> set (timers w). removal_time (now w) i x = Some r}"

definition attached :: "world \<Rightarrow> nat \<Rightarrow> bool" where
  "attached w i \<longleftrightarrow> i < length (notifications w) \<and> note_attached (notifications w ! i)"

definition shown :: "world \<Rightarrow> nat \<Rightarrow> bool" where
  "shown w i \<longleftrightarrow> i < length (notifications w) \<and> note_shown (notifications w ! i)"

subsection \<open>Numbers of the platform\<close>

text \<open>
  A JavaScript number is an IEEE 754 double. A finite double is represented by the
  rational number it denotes (so the two zeros are one value, which none of the
  operations used here can tell apart); the other values are \<open>NaN\<close> and the two
  infinities.
\<close>

datatype jsnum = NaN | NegInf | Fin rat | PosInf

definition pow2 :: "int \<Rightarrow> rat" where
  "pow2 e = (if 0 \<le> e then 2 ^ nat e else 1 / 2 ^ nat (- e))"

function bit_length :: "nat \<Rightarrow> nat" where
  "bit_length n = (if n = 0 then 0 else Suc (bit_length (n div 2)))"
  by pat_completeness auto
termination
  by (relation "measure id") auto

declare bit_length.simps [simp del]

text \<open>The \<open>e\<close> with \<open>2 ^ e \<le> q < 2 ^ (e + 1)\<close>, for a positive \<open>q\<close>.\<close>

definition floor_log2 :: "rat \<Rightarrow> int" where
  "floor_log2 q =
     (if 1 \<le> q then int (bit_length (nat \<lfloor>q\<rfloor>)) - 1
      else - int (bit_length (nat (\<lceil>1 / q\<rceil> - 1))))"

definition round_half_even :: "rat \<Rightarrow> int" where
  "round_half_even x =
     (if x - of_int \<lfloor>x\<rfloor> < 1 / 2 then \<lfloor>x\<rfloor>
      else if 1 / 2 < x - of_int \<lfloor>x\<rfloor> then \<lfloor>x\<rfloor> + 1
      else if even \<lfloor>x\<rfloor> then \<lfloor>x\<rfloor> else \<lfloor>x\<rfloor> + 1)"

text \<open>
  Rounding a real result to the nearest double, ties to even. A double has 53
  significant bits, so a number of magnitude \<open>a\<close> with \<open>2 ^ e \<le> a < 2 ^ (e + 1)\<close> is
  rounded to a multiple of \<open>2 ^ (e - 52)\<close>; the exponent \<open>e\<close> is bounded below by \<open>- 1022\<close>
  (subnormal numbers) and a result of \<open>2 ^ 1024\<close> or more is an infinity.
\<close>

definition quantum_exponent :: "rat \<Rightarrow> int" where
  "quantum_exponent a = max (floor_log2 a) (- 1022) - 52"

definition round_to_multiple :: "rat \<Rightarrow> rat \<Rightarrow> rat" where
  "round_to_multiple u a = of_int (round_half_even (a / u)) * u"

definition with_sign :: "bool \<Rightarrow> rat \<Rightarrow> jsnum" where
  "with_sign negative r =
     (if pow2 1024 \<le> r then (if negative then NegInf else PosInf)
      else Fin (if negative then - r else r))"

definition round_to_double :: "rat \<Rightarrow> jsnum" where
  "round_to_double q =
     (if q = 0 then Fin 0
      else with_sign (q < 0) (round_to_multiple (pow2 (quantum_exponent \<bar>q\<bar>)) \<bar>q\<bar>))"

fun js_add :: "jsnum \<Rightarrow> jsnum \<Rightarrow> jsnum" where
  "js_add (Fin a) (Fin b) = round_to_double (a + b)"
| "js_add NaN y = NaN"
| "js_add x NaN = NaN"
| "js_add PosInf NegInf = NaN"
| "js_add NegInf PosInf = NaN"
| "js_add PosInf y = PosInf"
| "js_add NegInf y = NegInf"
| "js_add x PosInf = PosInf"
| "js_add x NegInf = NegInf"

text \<open>\<^verbatim>\<open>x / d\<close> for a positive finite constant \<open>d\<close>.\<close>

fun js_div_by :: "jsnum \<Rightarrow> rat \<Rightarrow> jsnum" where
  "js_div_by (Fin a) d = round_to_double (a / d)"
| "js_div_by x d = x"

text \<open>\<^verbatim>\<open>x >= y\<close>\<close>

fun js_ge :: "jsnum \<Rightarrow> jsnum \<Rightarrow> bool" where
  "js_ge NaN y = False"
| "js_ge x NaN = False"
| "js_ge PosInf y = True"
| "js_ge x NegInf = True"
| "js_ge NegInf y = False"
| "js_ge x PosInf = False"
| "js_ge (Fin a) (Fin b) = (b \<le> a)"

fun isNaN :: "jsnum \<Rightarrow> bool" where
  "isNaN NaN = True"
| "isNaN x = False"

text \<open>\<^verbatim>\<open>Math.floor\<close>; the floor of a double is a double.\<close>

fun js_floor :: "jsnum \<Rightarrow> jsnum" where
  "js_floor (Fin a) = Fin (of_int \<lfloor>a\<rfloor>)"
| "js_floor x = x"

subsection \<open>Numbers and strings\<close>

definition is_digit :: "char \<Rightarrow> bool" where
  "is_digit c \<longleftrightarrow> c \<in> set ''0123456789''"

definition digit_value :: "char \<Rightarrow> nat" where
  "digit_value c = length (takeWhile (\<lambda>d. d \<noteq> c) ''0123456789'')"

definition digits_value :: "string \<Rightarrow> nat" where
  "digits_value ds = foldl (\<lambda>n c. 10 * n + digit_value c) 0 ds"

definition pow10 :: "int \<Rightarrow> rat" where
  "pow10 e = (if 0 \<le> e then 10 ^ nat e else 1 / 10 ^ nat (- e))"

text \<open>
  The exponent part of a decimal literal at the head of a string: \<^verbatim>\<open>e\<close> or \<^verbatim>\<open>E\<close>, an
  optional sign and at least one digit. Without a digit there is no exponent part.
\<close>

definition exponent_part :: "string \<Rightarrow> int" where
  "exponent_part s =
     (case s of
        [] \<Rightarrow> 0
      | c # r \<Rightarrow>
          (if c = CHR ''e'' \<or> c = CHR ''E''
           then (case r of
                   [] \<Rightarrow> 0
                 | sg # r' \<Rightarrow>
                     (if sg = CHR ''-'' then - int (digits_value (takeWhile is_digit r'))
                      else if sg = CHR ''+'' then int (digits_value (takeWhile is_digit r'))
                      else int (digits_value (takeWhile is_digit r))))
           else 0))"

text \<open>The value of the longest prefix that is an unsigned decimal literal, if there is one.\<close>

definition unsigned_literal :: "string \<Rightarrow> jsnum" where
  "unsigned_literal s =
     (if take 8 s = ''Infinity'' then PosInf
      else (let ip = takeWhile is_digit s;
                s1 = dropWhile is_digit s;
                fp = (case s1 of [] \<Rightarrow> [] | c # r \<Rightarrow> if c = CHR ''.'' then takeWhile is_digit r else []);
                s2 = (case s1 of [] \<Rightarrow> [] | c # r \<Rightarrow> if c = CHR ''.'' then dropWhile is_digit r else s1)
            in if ip = [] \<and> fp = [] then NaN
               else round_to_double
                      (of_nat (digits_value (ip @ fp))
                         * pow10 (exponent_part s2 - int (length fp)))))"

fun js_negate :: "jsnum \<Rightarrow> jsnum" where
  "js_negate (Fin a) = Fin (- a)"
| "js_negate PosInf = NegInf"
| "js_negate NegInf = PosInf"
| "js_negate NaN = NaN"

text \<open>\<^verbatim>\<open>parseFloat\<close>: leading white space is skipped and what follows the literal is ignored.\<close>

definition parseFloat :: "string \<Rightarrow> jsnum" where
  "parseFloat s =
     (case dropWhile js_whitespace s of
        [] \<Rightarrow> NaN
      | c # r \<Rightarrow>
          (if c = CHR ''-'' then js_negate (unsigned_literal r)
           else if c = CHR ''+'' then unsigned_literal r
           else unsigned_literal (c # r)))"

text \<open>The decimal digits of a natural number.\<close>

definition digit_char :: "nat \<Rightarrow> char" where
  "digit_char n = ''0123456789'' ! n"

function decimal :: "nat \<Rightarrow> string" where
  "decimal n = (if n < 10 then [digit_char n] else decimal (n div 10) @ [digit_char (n mod 10)])"
  by pat_completeness auto
termination
  by (relation "measure id") auto

declare decimal.simps [simp del]

text \<open>
  \<^verbatim>\<open>String(x)\<close> for a double \<open>x\<close> whose value is the integer \<open>k\<close>. Below \<open>2 ^ 53\<close> every
  integer is a double and the string is the integer's decimal digits. From \<open>2 ^ 53\<close> on
  the string is made of the fewest digits \<open>s\<close> (\<open>j\<close> of them, at most 17) such that
  \<open>s * 10 ^ (n - j)\<close> still rounds to \<open>x\<close>; of several such \<open>s\<close> the one closest to \<open>x\<close>
  is taken, and of two equally close ones the even one. The digits are followed by
  zeros when \<open>n \<le> 21\<close> and written with an exponent otherwise.
\<close>

definition shortest_candidates :: "nat \<Rightarrow> nat \<Rightarrow> (nat \<times> nat) list" where
  "shortest_candidates k j =
     (let d = length (decimal k)
      in concat (map (\<lambda>n.
           concat (map (\<lambda>s.
             if 10 ^ (j - 1) \<le> s \<and> s < 10 ^ j
                \<and> round_to_double (of_nat (s * 10 ^ (n - j))) = Fin (of_nat k)
             then [(s, n)] else [])
           [k div 10 ^ (n - j), k div 10 ^ (n - j) + 1]))
         [d, d + 1]))"

definition closer :: "nat \<Rightarrow> nat \<Rightarrow> nat \<times> nat \<Rightarrow> nat \<times> nat \<Rightarrow> nat \<times> nat" where
  "closer k j a b =
     (let da = \<bar>int (fst a * 10 ^ (snd a - j)) - int k\<bar>;
          db = \<bar>int (fst b * 10 ^ (snd b - j)) - int k\<bar>
      in if da < db then a else if db < da then b else if even (fst a) then a else b)"

definition shortest_digits :: "nat \<Rightarrow> (nat \<times> nat \<times> nat) option" where
  "shortest_digits k =
     (case filter (\<lambda>j. shortest_candidates k j \<noteq> []) [1 ..< 18] of
        [] \<Rightarrow> None
      | j # js \<Rightarrow> (case shortest_candidates k j of
                    [] \<Rightarrow> None
                  | c # cs \<Rightarrow> (let (s, n) = foldl (closer k j) c cs in Some (j, s, n))))"

definition nat_to_string :: "nat \<Rightarrow> string" where
  "nat_to_string k =
     (if k < 2 ^ 53 then decimal k
      else (case shortest_digits k of
              None \<Rightarrow> decimal k
            | Some (j, s, n) \<Rightarrow>
                (if n \<le> 21 then decimal s @ replicate (n - j) (CHR ''0'')
                 else if j = 1 then decimal s @ ''e+'' @ decimal (n - 1)
                 else take 1 (decimal s) @ ''.'' @ drop 1 (decimal s) @ ''e+'' @ decimal (n - 1))))"

definition integral_to_string :: "int \<Rightarrow> string" where
  "integral_to_string k = (if k < 0 then ''-'' @ nat_to_string (nat (- k)) else nat_to_string (nat k))"

text \<open>\<^verbatim>\<open>String(Math.floor(x))\<close>\<close>

fun floor_to_string :: "jsnum \<Rightarrow> string" where
  "floor_to_string (Fin a) = integral_to_string \<lfloor>a\<rfloor>"
| "floor_to_string NaN = ''NaN''"
| "floor_to_string PosInf = ''Infinity''"
| "floor_to_string NegInf = ''-Infinity''"

text \<open>
  \<^verbatim>\<open>x.toFixed(2)\<close>. Below \<open>10 ^ 21\<close> the digits are those of the integer \<open>n\<close> for which
  \<open>n / 100\<close> is closest to the exact value of \<open>x\<close> (the larger one of two), filled with
  zeros to three digits at least, with a point before the last two; from \<open>10 ^ 21\<close> on the
  result is \<^verbatim>\<open>String(x)\<close>, and such a double is an integer. A negative number gets its
  sign in front.
\<close>

definition two_decimals :: "string \<Rightarrow> string" where
  "two_decimals m =
     (if length m \<le> 2
      then take 1 (replicate (3 - length m) (CHR ''0'') @ m) @ ''.''
             @ drop 1 (replicate (3 - length m) (CHR ''0'') @ m)
      else take (length m - 2) m @ ''.'' @ drop (length m - 2) m)"

definition fixed2_magnitude :: "rat \<Rightarrow> string" where
  "fixed2_magnitude x =
     (if 10 ^ 21 \<le> x then nat_to_string (nat \<lfloor>x\<rfloor>)
      else two_decimals (decimal (nat \<lfloor>x * 100 + 1 / 2\<rfloor>)))"

fun toFixed2 :: "jsnum \<Rightarrow> string" where
  "toFixed2 (Fin a) = (if a < 0 then ''-'' @ fixed2_magnitude (- a) else fixed2_magnitude a)"
| "toFixed2 NaN = ''NaN''"
| "toFixed2 PosInf = ''Infinity''"
| "toFixed2 NegInf = ''-Infinity''"

subsection \<open>Counter animation\<close>

text \<open>
  The closure of \<^verbatim>\<open>animateStatValue\<close> together with the element's text: \<open>timer_active\<close>
  says whether the interval is still set.
\<close>

record counter =
  finalValue :: string
  numericValue :: jsnum
  increment :: jsnum
  currentValue :: jsnum
  timer_active :: bool
  textContent :: string

definition stepTime :: nat where
  "stepTime = 2000 div 50"

text \<open>
  \<^verbatim>\<open>animateStatValue\<close> up to the call of \<^verbatim>\<open>setInterval(..., stepTime)\<close>. When the text does
  not parse as a number the function returns at once and no interval is set.
\<close>

definition animateStatValue :: "string \<Rightarrow> counter" where
  "animateStatValue txt =
     \<lparr> finalValue = txt, numericValue = parseFloat txt,
       increment = js_div_by (parseFloat txt) 50,
       currentValue = Fin 0, timer_active = \<not> isNaN (parseFloat txt), textContent = txt \<rparr>"

text \<open>The formatting at the end of the interval's callback, by the original text.\<close>

definition counter_format :: "string \<Rightarrow> jsnum \<Rightarrow> string" where
  "counter_format fv cv =
     (if CHR ''.'' \<in> set fv then toFixed2 cv
      else if CHR ''+'' \<in> set fv then floor_to_string cv @ ''+''
      else floor_to_string cv)"

text \<open>
  The callback of the interval: \<open>cv\<close> is \<^verbatim>\<open>currentValue\<close> after \<^verbatim>\<open>currentValue += increment\<close>.
\<close>

definition counter_update :: "counter \<Rightarrow> jsnum \<Rightarrow> counter" where
  "counter_update c cv =
     (if js_ge cv (numericValue c)
      then c\<lparr> currentValue := numericValue c, timer_active := False,
              textContent := counter_format (finalValue c) (numericValue c) \<rparr>
      else c\<lparr> currentValue := cv, textContent := counter_format (finalValue c) cv \<rparr>)"

definition counter_tick :: "counter \<Rightarrow> counter" where
  "counter_tick c = counter_update c (js_add (currentValue c) (increment c))"

text \<open>One period of \<open>stepTime\<close> milliseconds passes: the callback runs if the interval is set.\<close>

definition counter_period :: "counter \<Rightarrow> counter" where
  "counter_period c = (if timer_active c then counter_tick c else c)"

fun counter_after :: "nat \<Rightarrow> counter \<Rightarrow> counter" where
  "counter_after 0 c = c"
| "counter_after (Suc n) c = counter_after n (counter_period c)"

text \<open>The texts rendered during the first \<open>n\<close> periods, in order.\<close>

fun stat_frames :: "nat \<Rightarrow> counter \<Rightarrow> string list" where
  "stat_frames 0 c = []"
| "stat_frames (Suc n) c =
     (if timer_active c
      then textContent (counter_tick c) # stat_frames n (counter_tick c)
      else [])"

subsection \<open>Invariants and other notions used in the properties\<close>

text \<open>At most one timer chain of the typing animation is pending, and only while the flag is set.\<close>

definition one_chain :: "typing_page \<Rightarrow> bool" where
  "one_chain p \<longleftrightarrow>
     length (typing_timers p) \<le> 1 \<and> (typing_timers p \<noteq> [] \<longrightarrow> typingAnimationRunning p)"

text \<open>
  A one-shot observer has no target twice, has done its work on no element twice, and
  observes no element it has done its work on.
\<close>

definition once_inv :: "once_observer \<Rightarrow> bool" where
  "once_inv ob \<longleftrightarrow>
     distinct (observing ob) \<and> distinct (fired ob) \<and> set (observing ob) \<inter> set (fired ob) = {}"

text \<open>A text that is not empty and whose last character is a digit.\<close>

definition ends_in_digit :: "string \<Rightarrow> bool" where
  "ends_in_digit s \<longleftrightarrow> s \<noteq> [] \<and> is_digit (last s)"

text \<open>The numbers that the counter renders for the text \<open>42+\<close>, step by step.\<close>

definition rendered_42 :: "nat list" where
  "rendered_42 =
     [
      0, 1, 2, 3, 4, 5, 5, 6, 7, 8, 9, 10, 10, 11, 12, 13, 14, 15, 15, 16, 17, 18, 19, 20,
      21, 21, 22, 23, 24, 25, 26, 26, 27, 28, 29, 30, 31, 31, 32, 33, 34, 35, 36, 36, 37,
      38, 39, 40, 41, 42]"

section \<open>Properties\<close>

subsection \<open>Theme system\<close>

lemma js_or_default_cases:
  "js_or_default None d = d"
  "js_or_default (Some []) d = d"
  "s \<noteq> [] \<Longrightarrow> js_or_default (Some s) d = s"
  by (simp_all add: js_or_default_def)

lemma updateThemeSwitcher_keeps:
  "currentTheme (updateThemeSwitcher s) = currentTheme s"
  "data_theme (updateThemeSwitcher s) = data_theme s"
  by (simp_all add: updateThemeSwitcher_def)

lemma theme_startup_current:
  "currentTheme (theme_startup env) = js_or_default (stored_theme env) ''dark''"
  by (simp add: theme_startup_def initializeTheme_def load_script_def Let_def
      updateThemeSwitcher_def)

lemma theme_startup_attribute:
  "data_theme (theme_startup env) = Some (js_or_default (stored_theme env) ''dark'')"
  by (simp add: theme_startup_def initializeTheme_def load_script_def Let_def
      updateThemeSwitcher_def)

text \<open>
  Claim C1, as the code has it. At start the active theme is the stored value when one
  is stored (and not empty), and \<open>dark\<close> otherwise; it is applied to the document root;
  the operating system's preference plays no part in it. In particular a start with
  nothing stored and no readable preference yields \<open>dark\<close>.
\<close>

theorem theme_startup_resolution:
  "(\<forall>v. stored_theme env = Some v \<and> v \<noteq> [] \<longrightarrow> currentTheme (theme_startup env) = v)
   \<and> (stored_theme env = None \<or> stored_theme env = Some []
        \<longrightarrow> currentTheme (theme_startup env) = ''dark'')
   \<and> data_theme (theme_startup env) = Some (currentTheme (theme_startup env))
   \<and> currentTheme (theme_startup (env\<lparr>os_prefers_dark := os\<rparr>))
       = currentTheme (theme_startup env)
   \<and> (stored_theme env = None \<and> os_prefers_dark env = None
        \<longrightarrow> currentTheme (theme_startup env) = ''dark''
            \<and> data_theme (theme_startup env) = Some ''dark'')"
  by (auto simp: theme_startup_current theme_startup_attribute js_or_default_cases)

theorem theme_startup_resolution_witness:
  "currentTheme (theme_startup
      \<lparr>stored_theme = Some ''light'', os_prefers_dark = Some True, has_switcher = True\<rparr>)
     = ''light''
   \<and> currentTheme (theme_startup
      \<lparr>stored_theme = None, os_prefers_dark = None, has_switcher = True\<rparr>) = ''dark''
   \<and> data_theme (theme_startup
      \<lparr>stored_theme = None, os_prefers_dark = None, has_switcher = True\<rparr>) = Some ''dark''"
  using theme_startup_resolution
    [of "\<lparr>stored_theme = Some ''light'', os_prefers_dark = Some True, has_switcher = True\<rparr>"]
    theme_startup_resolution
    [of "\<lparr>stored_theme = None, os_prefers_dark = None, has_switcher = True\<rparr>"]
  by simp

text \<open>
  The claim as the specification states it fails: with nothing stored and an operating
  system that prefers light, the stated precedence gives \<open>light\<close>, the script \<open>dark\<close>.
\<close>

theorem theme_precedence_counterexample:
  "currentTheme (theme_startup
      \<lparr>stored_theme = None, os_prefers_dark = Some False, has_switcher = True\<rparr>) = ''dark''
   \<and> spec_theme_precedence
      \<lparr>stored_theme = None, os_prefers_dark = Some False, has_switcher = True\<rparr> = ''light''
   \<and> data_theme (theme_startup
      \<lparr>stored_theme = None, os_prefers_dark = Some False, has_switcher = True\<rparr>)
     \<noteq> Some (spec_theme_precedence
      \<lparr>stored_theme = None, os_prefers_dark = Some False, has_switcher = True\<rparr>)"
  by (simp add: theme_startup_current theme_startup_attribute js_or_default_cases
      spec_theme_precedence_def)

subsection \<open>Matrix background\<close>

lemma length_draw_columns: "length (draw_columns h rnd i ds) = length ds"
  by (induction ds arbitrary: i) simp_all

lemma matrix_step_length: "length (drops (matrix_step m e)) = length (drops m)"
  by (cases e) (simp_all add: resizeCanvas_def drawMatrix_def length_draw_columns)

lemma matrix_run_length: "length (drops (matrix_run evs m)) = length (drops m)"
  unfolding matrix_run_def
  by (induction evs arbitrary: m) (simp_all add: matrix_step_length)

lemma matrix_init_length:
  "length (drops (initializeMatrixBackground w h)) = w div 20"
  by (simp add: initializeMatrixBackground_def resizeCanvas_def Let_def)

text \<open>
  Claim C2, as the code has it. The number of columns is fixed when the effect is
  initialised, as the initial canvas width divided by 20 (rounded down), and no resize
  and no redraw changes it; a resize changes the canvas dimensions and nothing else, so
  the row positions stay as they are.
\<close>

theorem matrix_columns_fixed:
  "length (drops (initializeMatrixBackground w h))
     = canvas_width (initializeMatrixBackground w h) div 20
   \<and> length (drops (matrix_run evs (initializeMatrixBackground w h))) = w div 20
   \<and> drops (resizeCanvas w' h' m) = drops m
   \<and> canvas_width (resizeCanvas w' h' m) = w'
   \<and> canvas_height (resizeCanvas w' h' m) = h'"
  by (simp add: matrix_run_length matrix_init_length)
     (simp add: initializeMatrixBackground_def resizeCanvas_def Let_def)

theorem matrix_columns_fixed_witness:
  "length (drops (matrix_run [Tick (\<lambda>i. False), Resized 200 100]
      (initializeMatrixBackground 100 100))) = 5"
  using matrix_columns_fixed [of 100 100 "[Tick (\<lambda>i. False), Resized 200 100]"]
  by simp

text \<open>
  The claim as stated fails: a canvas initialised 100 wide has 5 columns; after one
  redraw and a resize to width 200 it still has 5 columns, not 10, and their row
  positions are 1, not reset.
\<close>

theorem matrix_resize_counterexample:
  "length (drops (matrix_run [Tick (\<lambda>i. False), Resized 200 100]
      (initializeMatrixBackground 100 100)))
     \<noteq> canvas_width (matrix_run [Tick (\<lambda>i. False), Resized 200 100]
          (initializeMatrixBackground 100 100)) div 20
   \<and> drops (matrix_run [Tick (\<lambda>i. False), Resized 200 100]
        (initializeMatrixBackground 100 100)) = [1, 1, 1, 1, 1]"
  by code_simp

subsection \<open>Typing animation\<close>

lemma typeText_total:
  "textIndex st < length pl \<Longrightarrow> \<exists>st' shown delay. typeText pl st = Inr (st', shown, delay)"
  by (simp add: typeText_def Let_def)

lemma typeText_at_full:
  assumes "textIndex st < length pl" "\<not> isDeleting st"
    "charIndex st + 1 = int (length (pl ! textIndex st))"
  shows "typeText pl st =
    Inr (st\<lparr>charIndex := charIndex st + 1, isDeleting := True\<rparr>, pl ! textIndex st, 2000)"
  using assms by (simp add: typeText_def Let_def substring0_def)

lemma typeText_at_empty:
  assumes "textIndex st < length pl" "isDeleting st" "charIndex st - 1 = 0"
  shows "typeText pl st =
    Inr (st\<lparr>charIndex := 0, isDeleting := False,
           textIndex := (textIndex st + 1) mod length pl\<rparr>, [], 500)"
  using assms by (simp add: typeText_def Let_def substring0_def)

lemma typeText_typing:
  assumes "textIndex st < length pl" "\<not> isDeleting st"
    "charIndex st + 1 \<noteq> int (length (pl ! textIndex st))"
  shows "typeText pl st =
    Inr (st\<lparr>charIndex := charIndex st + 1\<rparr>,
         substring0 (pl ! textIndex st) (charIndex st + 1), 100)"
  using assms by (simp add: typeText_def Let_def)

lemma typeText_deleting:
  assumes "textIndex st < length pl" "isDeleting st" "charIndex st - 1 \<noteq> 0"
  shows "typeText pl st =
    Inr (st\<lparr>charIndex := charIndex st - 1\<rparr>,
         substring0 (pl ! textIndex st) (charIndex st - 1), 50)"
  using assms by (simp add: typeText_def Let_def)

lemma typing_trace_AB:
  "typing_trace [''AB''] 5 typing_start =
     [(''A'', 100), (''AB'', 2000), (''A'', 50), ('''', 500), (''A'', 100)]"
  by (simp add: eval_nat_numeral typeText_def typing_start_def Let_def substring0_def)

lemma typing_after_AB:
  "typing_after [''AB''] 4 typing_start = \<lparr>textIndex = 0, charIndex = 0, isDeleting = False\<rparr>"
  by (simp add: eval_nat_numeral typeText_def typing_start_def Let_def substring0_def)

text \<open>
  Claim C4. One run of \<^verbatim>\<open>typeText\<close> on a valid playlist index: while typing, when the
  incremented \<open>charIndex\<close> equals the length of the current text, the whole text is shown,
  the next delay is 2000 ms and the state switches to deleting; while deleting, when the
  decremented \<open>charIndex\<close> is 0, the empty text is shown, the state switches to typing,
  \<open>textIndex\<close> advances modulo the playlist length and the next delay is 500 ms; otherwise
  the delay is 100 ms while typing and 50 ms while deleting and only \<open>charIndex\<close> moves.
  For the playlist \<open>[AB]\<close> the first five runs show A, AB, A, the empty text and A again,
  and after the fourth run \<open>textIndex\<close> is 0 again.
\<close>

theorem typing_state_machine:
  "(textIndex st < length pl \<and> \<not> isDeleting st
      \<and> charIndex st + 1 = int (length (pl ! textIndex st))
     \<longrightarrow> typeText pl st =
         Inr (st\<lparr>charIndex := charIndex st + 1, isDeleting := True\<rparr>,
              pl ! textIndex st, 2000))
   \<and> (textIndex st < length pl \<and> isDeleting st \<and> charIndex st - 1 = 0
     \<longrightarrow> typeText pl st =
         Inr (st\<lparr>charIndex := 0, isDeleting := False,
                textIndex := (textIndex st + 1) mod length pl\<rparr>, [], 500))
   \<and> (textIndex st < length pl \<and> \<not> isDeleting st
      \<and> charIndex st + 1 \<noteq> int (length (pl ! textIndex st))
     \<longrightarrow> typeText pl st =
         Inr (st\<lparr>charIndex := charIndex st + 1\<rparr>,
              substring0 (pl ! textIndex st) (charIndex st + 1), 100))
   \<and> (textIndex st < length pl \<and> isDeleting st \<and> charIndex st - 1 \<noteq> 0
     \<longrightarrow> typeText pl st =
         Inr (st\<lparr>charIndex := charIndex st - 1\<rparr>,
              substring0 (pl ! textIndex st) (charIndex st - 1), 50))
   \<and> typing_trace [''AB''] 5 typing_start =
       [(''A'', 100), (''AB'', 2000), (''A'', 50), ('''', 500), (''A'', 100)]
   \<and> textIndex (typing_after [''AB''] 4 typing_start) = 0"
  using typeText_at_full [of st pl] typeText_at_empty [of st pl]
    typeText_typing [of st pl] typeText_deleting [of st pl]
  by (simp add: typing_trace_AB typing_after_AB)

theorem typing_state_machine_witness:
  "typeText texts \<lparr>textIndex = 4, charIndex = 1, isDeleting = True\<rparr> =
     Inr (\<lparr>textIndex = 0, charIndex = 0, isDeleting = False\<rparr>, [], 500)
   \<and> typeText texts \<lparr>textIndex = 3, charIndex = 13, isDeleting = False\<rparr> =
     Inr (\<lparr>textIndex = 3, charIndex = 14, isDeleting = True\<rparr>, ''Problem Solver'', 2000)
   \<and> typeText texts \<lparr>textIndex = 3, charIndex = 2, isDeleting = False\<rparr> =
     Inr (\<lparr>textIndex = 3, charIndex = 3, isDeleting = False\<rparr>, ''Pro'', 100)
   \<and> typeText texts \<lparr>textIndex = 3, charIndex = 3, isDeleting = True\<rparr> =
     Inr (\<lparr>textIndex = 3, charIndex = 2, isDeleting = True\<rparr>, ''Pr'', 50)"
  using typing_state_machine [of "\<lparr>textIndex = 4, charIndex = 1, isDeleting = True\<rparr>" texts]
    typing_state_machine [of "\<lparr>textIndex = 3, charIndex = 13, isDeleting = False\<rparr>" texts]
    typing_state_machine [of "\<lparr>textIndex = 3, charIndex = 2, isDeleting = False\<rparr>" texts]
    typing_state_machine [of "\<lparr>textIndex = 3, charIndex = 3, isDeleting = True\<rparr>" texts]
  by (simp add: texts_def substring0_def)

lemma initialize_typing_running:
  "typingAnimationRunning p \<Longrightarrow> initializeTypingAnimation pl p = p"
  by (simp add: initializeTypingAnimation_def)

lemma initialize_typing_twice:
  "initializeTypingAnimation pl (initializeTypingAnimation pl p) = initializeTypingAnimation pl p"
  by (simp add: initializeTypingAnimation_def)

lemma one_chain_step: "one_chain p \<Longrightarrow> one_chain (typing_step pl p e)"
proof (cases e)
  case Initialize
  assume "one_chain p"
  then show ?thesis
    using Initialize by (auto simp: one_chain_def initializeTypingAnimation_def)
next
  case (Fire k)
  assume "one_chain p"
  then show ?thesis
    using Fire
    by (auto simp: one_chain_def fire_typing_timer_def split: sum.splits)
qed

lemma one_chain_run: "one_chain p \<Longrightarrow> one_chain (typing_run pl evs p)"
  unfolding typing_run_def
  by (induction evs arbitrary: p) (simp_all add: one_chain_step)

lemma typing_timers_bound:
  "length (typing_timers (typing_run pl evs (typing_page_loaded el))) \<le> 1"
proof -
  have "one_chain (typing_page_loaded el)"
    by (simp add: one_chain_def typing_page_loaded_def)
  then have "one_chain (typing_run pl evs (typing_page_loaded el))"
    by (rule one_chain_run)
  then show ?thesis by (simp add: one_chain_def)
qed

text \<open>
  Claim C8. \<^verbatim>\<open>initializeTypingAnimation\<close> called while the animation is running changes
  nothing, so calling it twice is the same as calling it once; and whatever sequence of
  initialisations and timer firings follows the page load, at most one
  \<^verbatim>\<open>setTimeout(typeText, ...)\<close> is ever pending: there is never a second timer chain.
\<close>

theorem typing_initialize_idempotent:
  "(typingAnimationRunning p \<longrightarrow> initializeTypingAnimation pl p = p)
   \<and> initializeTypingAnimation pl (initializeTypingAnimation pl p)
       = initializeTypingAnimation pl p
   \<and> length (typing_timers (typing_run pl evs (typing_page_loaded el))) \<le> 1"
  using typing_timers_bound [of pl evs el]
  by (simp add: initialize_typing_running initialize_typing_twice)

theorem typing_initialize_idempotent_witness:
  "initializeTypingAnimation texts
     \<lparr>typingText = Some [], typingAnimationRunning = True,
      typing_timers = [(1000, typing_start)]\<rparr>
   = \<lparr>typingText = Some [], typingAnimationRunning = True,
      typing_timers = [(1000, typing_start)]\<rparr>
   \<and> typing_timers (typing_run texts [Initialize, Initialize, Fire 0, Initialize]
        (typing_page_loaded (Some [])))
     = [(100, \<lparr>textIndex = 0, charIndex = 1, isDeleting = False\<rparr>)]"
proof -
  have "typing_timers (typing_run texts [Initialize, Initialize, Fire 0, Initialize]
        (typing_page_loaded (Some [])))
     = [(100, \<lparr>textIndex = 0, charIndex = 1, isDeleting = False\<rparr>)]"
    by (simp add: typing_run_def typing_page_loaded_def initializeTypingAnimation_def
        fire_typing_timer_def typeText_def typing_start_def texts_def Let_def substring0_def)
  then show ?thesis
    using typing_initialize_idempotent
      [of "\<lparr>typingText = Some [], typingAnimationRunning = True,
            typing_timers = [(1000, typing_start)]\<rparr>" texts]
    by simp
qed

subsection \<open>One-shot intersection observers\<close>

lemma count_list_distinct:
  "distinct xs \<Longrightarrow> count_list xs x = (if x \<in> set xs then 1 else 0)"
  by (induction xs) auto

lemma once_entries_inv:
  "once_inv ob \<Longrightarrow> distinct (map fst es) \<Longrightarrow> set (map fst es) \<subseteq> set (observing ob)
     \<Longrightarrow> once_inv (foldl once_entry ob es)
         \<and> set (fired (foldl once_entry ob es)) \<subseteq> set (fired ob) \<union> set (map fst es)
         \<and> set (fired ob) \<subseteq> set (fired (foldl once_entry ob es))"
proof (induction es arbitrary: ob)
  case Nil
  then show ?case by simp
next
  case (Cons e es)
  let ?ob = "once_entry ob e"
  have inv: "once_inv ?ob"
    using Cons.prems
    by (auto simp: once_inv_def once_entry_def unobserve_def distinct_removeAll)
  have ne: "fst e \<notin> set (map fst es)" using Cons.prems(2) by simp
  have p3: "set (map fst es) \<subseteq> set (observing ob)" using Cons.prems(3) by simp
  have "set (map fst es) \<subseteq> set (observing ob) - {fst e}"
    using p3 ne by blast
  moreover have "set (observing ob) - {fst e} \<subseteq> set (observing ?ob)"
    by (auto simp: once_entry_def unobserve_def)
  ultimately have sub: "set (map fst es) \<subseteq> set (observing ?ob)" by (rule subset_trans)
  have d: "distinct (map fst es)" using Cons.prems by simp
  have f: "set (fired ?ob) \<subseteq> set (fired ob) \<union> {fst e}" "set (fired ob) \<subseteq> set (fired ?ob)"
    by (auto simp: once_entry_def unobserve_def)
  from Cons.IH [OF inv d sub] f show ?case by auto
qed

lemma queued_entries_targets:
  "distinct (observing ob) \<Longrightarrow>
     distinct (map fst (queued_entries change ob))
     \<and> set (map fst (queued_entries change ob)) \<subseteq> set (observing ob)"
proof -
  have "distinct xs \<Longrightarrow>
     distinct (map fst (concat (map (\<lambda>t. case change t of None \<Rightarrow> [] | Some b \<Rightarrow> [(t, b)]) xs)))
     \<and> set (map fst (concat (map (\<lambda>t. case change t of None \<Rightarrow> [] | Some b \<Rightarrow> [(t, b)]) xs)))
         \<subseteq> set xs" for xs
    by (induction xs) (auto split: option.splits)
  then show "distinct (observing ob) \<Longrightarrow> ?thesis"
    unfolding queued_entries_def by blast
qed

lemma once_frame_inv:
  assumes "once_inv ob"
  shows "once_inv (foldl once_entry ob (queued_entries change ob))"
    and "set (fired (foldl once_entry ob (queued_entries change ob)))
           \<subseteq> set (fired ob) \<union> set (observing ob)"
    and "set (fired ob) \<subseteq> set (fired (foldl once_entry ob (queued_entries change ob)))"
proof -
  have d: "distinct (observing ob)" using assms by (simp add: once_inv_def)
  note q = queued_entries_targets [OF d, of change]
  note r = once_entries_inv [OF assms conjunct1 [OF q] conjunct2 [OF q]]
  show "once_inv (foldl once_entry ob (queued_entries change ob))" using r by simp
  show "set (fired (foldl once_entry ob (queued_entries change ob)))
           \<subseteq> set (fired ob) \<union> set (observing ob)"
    using r q by blast
  show "set (fired ob) \<subseteq> set (fired (foldl once_entry ob (queued_entries change ob)))"
    using r by simp
qed

lemma stats_frame_fold: "stats_frame ob change = foldl once_entry ob (queued_entries change ob)"
  by (simp add: stats_frame_def statsObserver_callback_def Let_def)

lemma lazy_frame_fold: "lazy_frame ob change = foldl once_entry ob (queued_entries change ob)"
  by (simp add: lazy_frame_def lazyImageObserver_callback_def Let_def)

lemma once_frames_inv:
  "once_inv ob \<Longrightarrow> once_inv (foldl stats_frame ob changes)"
  "once_inv ob \<Longrightarrow> once_inv (foldl lazy_frame ob changes)"
  by (induction changes arbitrary: ob)
     (simp_all add: stats_frame_fold lazy_frame_fold once_frame_inv(1))

lemma observe_inv: "once_inv ob \<Longrightarrow> fired ob = [] \<Longrightarrow>
  once_inv (foldl (\<lambda>ob t. observe t ob) ob els)"
proof (induction els arbitrary: ob)
  case Nil
  then show ?case by simp
next
  case (Cons t els)
  have "once_inv (observe t ob)" "fired (observe t ob) = []"
    using Cons.prems by (auto simp: once_inv_def observe_def)
  then show ?case using Cons.IH by simp
qed

lemma observe_all_inv: "once_inv (observe_all els)"
  unfolding observe_all_def by (rule observe_inv) (simp_all add: once_inv_def)

lemma fired_not_observed_again:
  assumes "once_inv ob" "t \<in> set (fired ob)"
  shows "t \<notin> set (observing (foldl once_entry ob (queued_entries change ob)))"
    and "t \<notin> set (map fst (queued_entries change ob))"
proof -
  have d: "distinct (observing ob)" using assms by (simp add: once_inv_def)
  have "t \<in> set (fired (foldl once_entry ob (queued_entries change ob)))"
    using once_frame_inv(3) [OF assms(1), of change] assms(2) by blast
  moreover have "once_inv (foldl once_entry ob (queued_entries change ob))"
    by (rule once_frame_inv(1) [OF assms(1)])
  ultimately show "t \<notin> set (observing (foldl once_entry ob (queued_entries change ob)))"
    by (auto simp: once_inv_def)
  have "t \<notin> set (observing ob)" using assms by (auto simp: once_inv_def)
  then show "t \<notin> set (map fst (queued_entries change ob))"
    using queued_entries_targets [OF d, of change] by blast
qed

text \<open>
  Claim C9. For the stat counters and for the lazy images alike: after any sequence of
  observation passes over the elements registered at set-up, no element has had the
  callback's work done on it more than once; an element on which it was done is no longer
  observed; and in any later pass no entry is queued for it, so the list of callback
  invocations for it does not grow.
\<close>

theorem once_subscription_fires_once:
  "count_list (fired (foldl stats_frame (observe_all els) changes)) t \<le> 1
   \<and> count_list (fired (foldl lazy_frame (observe_all els) changes)) t \<le> 1
   \<and> (\<forall>ob \<in> {foldl stats_frame (observe_all els) changes,
                 foldl lazy_frame (observe_all els) changes}.
        t \<in> set (fired ob) \<longrightarrow>
          t \<notin> set (observing ob)
          \<and> t \<notin> set (map fst (queued_entries change ob))
          \<and> count_list (fired (stats_frame ob change)) t = 1
          \<and> count_list (fired (lazy_frame ob change)) t = 1)"
proof -
  let ?s = "foldl stats_frame (observe_all els) changes"
  let ?l = "foldl lazy_frame (observe_all els) changes"
  have inv: "once_inv ?s" "once_inv ?l"
    by (simp_all add: once_frames_inv observe_all_inv)
  have c: "once_inv ob \<Longrightarrow> count_list (fired ob) t \<le> 1" for ob
    by (simp add: once_inv_def count_list_distinct)
  have after: "once_inv ob \<Longrightarrow> t \<in> set (fired ob) \<Longrightarrow>
      t \<notin> set (observing ob)
      \<and> t \<notin> set (map fst (queued_entries change ob))
      \<and> count_list (fired (stats_frame ob change)) t = 1
      \<and> count_list (fired (lazy_frame ob change)) t = 1" for ob
  proof -
    assume i: "once_inv ob" and m: "t \<in> set (fired ob)"
    let ?ob = "foldl once_entry ob (queued_entries change ob)"
    have "once_inv ?ob" by (rule once_frame_inv(1) [OF i])
    then have "distinct (fired ?ob)" by (simp add: once_inv_def)
    moreover have "t \<in> set (fired ?ob)" using once_frame_inv(3) [OF i, of change] m by blast
    ultimately have "count_list (fired ?ob) t = 1"
      by (simp add: count_list_distinct)
    moreover have "t \<notin> set (observing ob)" using i m by (auto simp: once_inv_def)
    ultimately show ?thesis
      using fired_not_observed_again(2) [OF i m, of change]
      by (simp add: stats_frame_fold lazy_frame_fold)
  qed
  show ?thesis
    using c [OF inv(1)] c [OF inv(2)] after [OF inv(1)] after [OF inv(2)] by blast
qed

theorem once_subscription_fires_once_witness:
  "fired (foldl stats_frame (observe_all [1, 2])
      [(\<lambda>t. Some (t = 1)), (\<lambda>t. Some False), (\<lambda>t. Some True)]) = [1, 2]
   \<and> count_list (fired (foldl stats_frame (observe_all [1, 2])
      [(\<lambda>t. Some (t = 1)), (\<lambda>t. Some False), (\<lambda>t. Some True)])) 1 \<le> 1
   \<and> count_list (fired (stats_frame (foldl stats_frame (observe_all [1, 2])
      [(\<lambda>t. Some (t = 1)), (\<lambda>t. Some False), (\<lambda>t. Some True)]) (\<lambda>t. Some True))) 1 = 1"
proof -
  have f: "fired (foldl stats_frame (observe_all [1, 2])
      [(\<lambda>t. Some (t = 1)), (\<lambda>t. Some False), (\<lambda>t. Some True)]) = [1, 2]"
    by (simp add: observe_all_def observe_def stats_frame_def statsObserver_callback_def
        queued_entries_def once_entry_def unobserve_def Let_def)
  show ?thesis
    using once_subscription_fires_once [of "[1, 2]"
        "[(\<lambda>t. Some (t = 1)), (\<lambda>t. Some False), (\<lambda>t. Some True)]" 1 "\<lambda>t. Some True"] f
    by simp
qed

subsection \<open>Patterns\<close>

lemma nullable_iff: "nullable r \<longleftrightarrow> [] \<in> lang r"
  by (induction r) (auto simp: conc_def intro: star.star_empty)

lemma conc_cons:
  "c # w \<in> conc A B \<longleftrightarrow>
     (\<exists>u. w = u \<and> [] \<in> A \<and> c # u \<in> B) \<or> (\<exists>u v. w = u @ v \<and> c # u \<in> A \<and> v \<in> B)"
  by (auto simp: conc_def Cons_eq_append_conv)

lemma star_cons:
  "c # w \<in> star A \<longleftrightarrow> (\<exists>u v. w = u @ v \<and> c # u \<in> A \<and> v \<in> star A)"
proof
  assume "c # w \<in> star A"
  then show "\<exists>u v. w = u @ v \<and> c # u \<in> A \<and> v \<in> star A"
  proof (induction "c # w" rule: star.induct)
    case (star_step u v)
    show ?case
    proof (cases u)
      case Nil
      with star_step show ?thesis by simp
    next
      case (Cons d u')
      with star_step(1,2,4) show ?thesis by auto
    qed
  qed
next
  assume "\<exists>u v. w = u @ v \<and> c # u \<in> A \<and> v \<in> star A"
  then obtain u v where "w = u @ v" "c # u \<in> A" "v \<in> star A" by blast
  then show "c # w \<in> star A"
    using star.star_step [of "c # u" A v] by simp
qed

lemma lang_deriv: "w \<in> lang (deriv c r) \<longleftrightarrow> c # w \<in> lang r"
proof (induction r arbitrary: w)
  case (Times r s)
  then show ?case
    by (auto simp: conc_cons nullable_iff) (auto simp: conc_def)
next
  case (Star r)
  then show ?case
    by (auto simp: star_cons) (auto simp: conc_def)
qed auto

lemma regex_test_lang: "regex_test r w \<longleftrightarrow> w \<in> lang r"
  by (induction w arbitrary: r) (simp_all add: nullable_iff lang_deriv)

lemma star_atoms: "w \<in> star {[c] | c. p c} \<longleftrightarrow> list_all p w"
proof
  assume "w \<in> star {[c] | c. p c}"
  then show "list_all p w" by (induction rule: star.induct) auto
next
  assume "list_all p w"
  then show "w \<in> star {[c] | c. p c}"
  proof (induction w)
    case Nil
    show ?case by (rule star.star_empty)
  next
    case (Cons a w)
    then have "[a] \<in> {[c] | c. p c}" "w \<in> star {[c] | c. p c}" by auto
    from star.star_step [OF this] show ?case by simp
  qed
qed

lemma lang_one_or_more: "w \<in> lang (one_or_more (Atom p)) \<longleftrightarrow> w \<noteq> [] \<and> list_all p w"
proof (cases w)
  case Nil
  then show ?thesis by (simp add: one_or_more_def conc_def)
next
  case (Cons a u)
  then show ?thesis by (simp add: one_or_more_def conc_cons star_atoms)
qed

lemma emailPattern_shape: "regex_test emailPattern v \<longleftrightarrow> email_shape v"
proof -
  have "v \<in> lang emailPattern \<longleftrightarrow> email_shape v"
    unfolding emailPattern_def email_shape_def lang.simps(5) conc_def
    by (simp add: lang_one_or_more) blast
  then show ?thesis by (simp add: regex_test_lang)
qed

lemma trim_empty_iff: "trim s = [] \<longleftrightarrow> list_all js_whitespace s"
proof -
  have "trim s = [] \<longleftrightarrow> (\<forall>x \<in> set (dropWhile js_whitespace s). js_whitespace x)"
    by (simp add: trim_def)
  also have "\<dots> \<longleftrightarrow> dropWhile js_whitespace s = []"
  proof
    assume a: "\<forall>x \<in> set (dropWhile js_whitespace s). js_whitespace x"
    show "dropWhile js_whitespace s = []"
    proof (rule ccontr)
      assume n: "dropWhile js_whitespace s \<noteq> []"
      then have "\<not> js_whitespace (hd (dropWhile js_whitespace s))" by (rule hd_dropWhile)
      moreover have "hd (dropWhile js_whitespace s) \<in> set (dropWhile js_whitespace s)"
        using n by simp
      ultimately show False using a by blast
    qed
  next
    assume e: "dropWhile js_whitespace s = []"
    show "\<forall>x \<in> set (dropWhile js_whitespace s). js_whitespace x"
      unfolding e by simp
  qed
  also have "\<dots> \<longleftrightarrow> list_all js_whitespace s"
    by (simp add: list_all_iff)
  finally show ?thesis .
qed

lemma email_shape_not_blank: "email_shape v \<Longrightarrow> trim v \<noteq> []"
  by (auto simp: email_shape_def trim_empty_iff js_whitespace_def)

lemma email_examples:
  "\<not> regex_test emailPattern ''a@b''" "regex_test emailPattern ''a@b.com''"
  by (simp_all add: emailPattern_def one_or_more_def email_char_def js_whitespace_def)

subsection \<open>Field validation\<close>

lemma validateField_required_empty:
  assumes "required f" "trim (field_value f) = []"
  shows "\<not> fst (validateField f)"
    and "error_message (formGroup (snd (validateField f))) =
           Some (if field_type f = ''email'' \<and> field_value f \<noteq> []
                 then ''Please enter a valid email address'' else ''This field is required'')"
proof -
  have "\<not> regex_test emailPattern (field_value f)"
    using assms(2) email_shape_not_blank by (auto simp: emailPattern_shape)
  then show "\<not> fst (validateField f)"
    and "error_message (formGroup (snd (validateField f))) =
           Some (if field_type f = ''email'' \<and> field_value f \<noteq> []
                 then ''Please enter a valid email address'' else ''This field is required'')"
    using assms by (simp_all add: validateField_def showFieldError_def)
qed

lemma validateField_email:
  assumes "field_type f = ''email''" "field_value f \<noteq> []"
  shows "fst (validateField f) \<longleftrightarrow> regex_test emailPattern (field_value f)"
proof (cases "regex_test emailPattern (field_value f)")
  case True
  then have "trim (field_value f) \<noteq> []"
    using email_shape_not_blank by (simp add: emailPattern_shape)
  with True assms show ?thesis by (simp add: validateField_def)
next
  case False
  with assms show ?thesis by (simp add: validateField_def)
qed

lemma validateField_display:
  "\<not> fst (validateField f) \<Longrightarrow>
     error_class (formGroup (snd (validateField f)))
     \<and> error_message (formGroup (snd (validateField f))) \<noteq> None"
  "fst (validateField f) \<Longrightarrow>
     \<not> error_class (formGroup (snd (validateField f)))
     \<and> error_message (formGroup (snd (validateField f))) = None"
  by (auto simp: validateField_def showFieldError_def hideFieldError_def split: if_splits)

lemma validateField_keeps_value: "field_value (snd (validateField f)) = field_value f"
  by (simp add: validateField_def split: if_splits)

text \<open>
  Claim C5, as the code has it. A required field whose value is empty after trimming is
  invalid; its message is \<open>This field is required\<close>, except that for an email-typed field
  with a non-empty (blank) value the email check overwrites it with
  \<open>Please enter a valid email address\<close>. An email-typed field with a non-empty value is
  valid exactly when the value matches the pattern, so \<open>a@b\<close> is invalid and \<open>a@b.com\<close>
  is valid. An invalid field gets the error class and an inline message; a valid one
  loses both.
\<close>

theorem validateField_behaviour:
  "(required f \<and> trim (field_value f) = [] \<longrightarrow>
      \<not> fst (validateField f)
      \<and> error_message (formGroup (snd (validateField f))) =
          Some (if field_type f = ''email'' \<and> field_value f \<noteq> []
                then ''Please enter a valid email address'' else ''This field is required''))
   \<and> (field_type f = ''email'' \<and> field_value f \<noteq> [] \<longrightarrow>
        (fst (validateField f) \<longleftrightarrow> regex_test emailPattern (field_value f)))
   \<and> (\<not> fst (validateField f) \<longrightarrow>
        error_class (formGroup (snd (validateField f)))
        \<and> error_message (formGroup (snd (validateField f))) \<noteq> None)
   \<and> (fst (validateField f) \<longrightarrow>
        \<not> error_class (formGroup (snd (validateField f)))
        \<and> error_message (formGroup (snd (validateField f))) = None)
   \<and> \<not> fst (validateField (f\<lparr>field_type := ''email'', field_value := ''a@b''\<rparr>))
   \<and> fst (validateField (f\<lparr>field_type := ''email'', field_value := ''a@b.com''\<rparr>))"
proof -
  have a: "\<not> fst (validateField (f\<lparr>field_type := ''email'', field_value := ''a@b''\<rparr>))"
    using validateField_email [of "f\<lparr>field_type := ''email'', field_value := ''a@b''\<rparr>"]
      email_examples(1)
    by simp
  have b: "fst (validateField (f\<lparr>field_type := ''email'', field_value := ''a@b.com''\<rparr>))"
    using validateField_email [of "f\<lparr>field_type := ''email'', field_value := ''a@b.com''\<rparr>"]
      email_examples(2)
    by simp
  show ?thesis
    using validateField_required_empty [of f] validateField_email [of f]
      validateField_display [of f] a b
    by blast
qed

theorem validateField_behaviour_witness:
  "\<not> fst (validateField
      \<lparr>field_name = ''name'', required = True, field_type = ''text'', field_value = '' '',
       default_value = [], formGroup = \<lparr>error_class = False, error_message = None\<rparr>\<rparr>)
   \<and> error_message (formGroup (snd (validateField
      \<lparr>field_name = ''name'', required = True, field_type = ''text'', field_value = '' '',
       default_value = [], formGroup = \<lparr>error_class = False, error_message = None\<rparr>\<rparr>)))
       = Some ''This field is required''
   \<and> error_class (formGroup (snd (validateField
      \<lparr>field_name = ''name'', required = True, field_type = ''text'', field_value = '' '',
       default_value = [], formGroup = \<lparr>error_class = False, error_message = None\<rparr>\<rparr>)))
   \<and> fst (validateField
      \<lparr>field_name = ''email'', required = True, field_type = ''email'',
       field_value = ''a@b.com'', default_value = [],
       formGroup = \<lparr>error_class = True, error_message = Some ''This field is required''\<rparr>\<rparr>)
   \<and> error_message (formGroup (snd (validateField
      \<lparr>field_name = ''email'', required = True, field_type = ''email'',
       field_value = ''a@b.com'', default_value = [],
       formGroup = \<lparr>error_class = True, error_message = Some ''This field is required''\<rparr>\<rparr>)))
       = None"
  using validateField_behaviour
    [of "\<lparr>field_name = ''name'', required = True, field_type = ''text'', field_value = '' '',
       default_value = [], formGroup = \<lparr>error_class = False, error_message = None\<rparr>\<rparr>"]
    validateField_behaviour
    [of "\<lparr>field_name = ''email'', required = True, field_type = ''email'',
       field_value = ''a@b.com'', default_value = [],
       formGroup = \<lparr>error_class = True, error_message = Some ''This field is required''\<rparr>\<rparr>"]
  by (simp add: trim_def js_whitespace_def emailPattern_def one_or_more_def email_char_def)

text \<open>
  The claim as stated fails for a required email field whose value is blank but not
  empty, such as a single no-break space (which the browser's sanitisation of email
  inputs leaves in place) or, for a field object passed in directly, a single space: the
  value is empty after trimming, and the message is the one of the email check.
\<close>

theorem validateField_required_message_counterexample:
  "trim [CHR 0xA0] = []
   \<and> error_message (formGroup (snd (validateField
      \<lparr>field_name = ''email'', required = True, field_type = ''email'',
       field_value = [CHR 0xA0], default_value = [],
       formGroup = \<lparr>error_class = False, error_message = None\<rparr>\<rparr>)))
       = Some ''Please enter a valid email address''
   \<and> trim '' '' = []
   \<and> error_message (formGroup (snd (validateField
      \<lparr>field_name = ''email'', required = True, field_type = ''email'',
       field_value = '' '', default_value = [],
       formGroup = \<lparr>error_class = False, error_message = None\<rparr>\<rparr>)))
       \<noteq> Some ''This field is required''"
  by (simp add: validateField_def trim_def js_whitespace_def showFieldError_def
      emailPattern_def one_or_more_def email_char_def)

subsection \<open>The event loop\<close>

lemma pick_Some:
  "pick t ts = Some (x, rest) \<Longrightarrow>
     fst x \<le> t \<and> set ts = insert x (set rest) \<and> (\<forall>y \<in> set ts. fst x \<le> fst y)"
proof (induction ts arbitrary: x rest)
  case Nil
  then show ?case by simp
next
  case (Cons a ts)
  show ?case
  proof (cases "pick t ts")
    case None
    then have "\<forall>y \<in> set ts. t < fst y"
      by (induction ts) (auto split: option.splits if_splits)
    with None Cons.prems show ?thesis by (auto split: if_splits)
  next
    case (Some p)
    obtain y ys where p: "p = (y, ys)" by (cases p)
    note ih = Cons.IH [OF Some [unfolded p]]
    show ?thesis
    proof (cases "fst a \<le> fst y")
      case True
      with Some p Cons.prems have xa: "x = a" "rest = ts" by simp_all
      have "fst a \<le> t" using True ih by simp
      moreover have "\<forall>z \<in> set ts. fst a \<le> fst z"
        using True ih by (meson order_trans)
      ultimately show ?thesis using xa by simp
    next
      case False
      with Some p Cons.prems have xy: "x = y" "rest = a # ys" by simp_all
      have "fst y \<le> fst a" using False by simp
      then show ?thesis using xy ih by auto
    qed
  qed
qed

lemma pick_None: "pick t ts = None \<Longrightarrow> \<forall>y \<in> set ts. t < fst y"
  by (induction ts) (auto split: option.splits if_splits)

lemma run_until_None:
  "pick t (timers w) = None \<Longrightarrow> run_until t w = w\<lparr>now := max (now w) t\<rparr>"
  by (subst run_until.simps) simp

lemma run_until_Some:
  "pick t (timers w) = Some ((due, f), rest) \<Longrightarrow>
     run_until t w = run_until t (fire f (w\<lparr>now := max (now w) due, timers := rest\<rparr>))"
  by (subst run_until.simps) simp

lemma run_until_induct [consumes 0, case_names idle step]:
  assumes "\<And>w. pick t (timers w) = None \<Longrightarrow> P w"
    and "\<And>w due f rest. pick t (timers w) = Some ((due, f), rest) \<Longrightarrow>
           P (fire f (w\<lparr>now := max (now w) due, timers := rest\<rparr>)) \<Longrightarrow> P w"
  shows "P w"
proof -
  have "t' = t \<Longrightarrow> P w" for t'
  proof (induction t' w rule: run_until.induct)
    case (1 t' w)
    show ?case
    proof (cases "pick t (timers w)")
      case None
      then show ?thesis by (rule assms(1))
    next
      case (Some p)
      obtain due f rest where p: "p = ((due, f), rest)" by (cases p) auto
      have "pick t' (timers w) = Some p" using Some "1.prems" by simp
      from "1.IH" [OF this, of "(due, f)" rest due f]
      have "P (fire f (w\<lparr>now := max (now w) due, timers := rest\<rparr>))"
        using p "1.prems" by simp
      with Some p show ?thesis using assms(2) by simp
    qed
  qed
  then show ?thesis by simp
qed

subsection \<open>Form submission\<close>

lemma showNotification_effect:
  "notifications (showNotification m ty w) =
     notifications w @ [\<lparr> note_message = m, note_type = ty,
        note_background = fst (notification_colours ty),
        note_border = snd (notification_colours ty),
        note_shown = False, note_attached = True \<rparr>]"
  "timers (showNotification m ty w) =
     timers w @ [(now w + 100, AnimateIn (length (notifications w))),
                 (now w + 5000, AnimateOut (length (notifications w)))]"
  "now (showNotification m ty w) = now w"
  "form_inputs (showNotification m ty w) = form_inputs w"
  "submitBtn (showNotification m ty w) = submitBtn w"
  "location_href (showNotification m ty w) = location_href w"
  by (simp_all add: showNotification_def setTimeout_def Let_def)

lemma invalid_form:
  "(\<exists>f \<in> set fs. \<not> fst (validateField f)) \<longleftrightarrow> \<not> list_all fst (map validateField fs)"
  by (induction fs) auto

lemma fire_keeps_form:
  assumes "\<forall>s. f \<noteq> CompleteSubmit s"
  shows "location_href (fire f w) = location_href w"
    and "submitBtn (fire f w) = submitBtn w"
    and "form_inputs (fire f w) = form_inputs w"
    and "\<forall>x \<in> set (timers (fire f w)) - set (timers w). \<forall>s. snd x \<noteq> CompleteSubmit s"
proof -
  show "location_href (fire f w) = location_href w"
    using assms
    by (cases f) (auto simp: set_shown_def remove_notification_def setTimeout_def)
  show "submitBtn (fire f w) = submitBtn w"
    using assms
    by (cases f) (auto simp: set_shown_def remove_notification_def setTimeout_def)
  show "form_inputs (fire f w) = form_inputs w"
    using assms
    by (cases f) (auto simp: set_shown_def remove_notification_def setTimeout_def)
  show "\<forall>x \<in> set (timers (fire f w)) - set (timers w). \<forall>s. snd x \<noteq> CompleteSubmit s"
    using assms
    by (cases f) (auto simp: set_shown_def remove_notification_def setTimeout_def)
qed

lemma run_keeps_form:
  "(\<forall>x \<in> set (timers w). \<forall>s. snd x \<noteq> CompleteSubmit s) \<Longrightarrow>
     location_href (run_until t w) = location_href w
     \<and> submitBtn (run_until t w) = submitBtn w
     \<and> form_inputs (run_until t w) = form_inputs w"
proof (induction w rule: run_until_induct [where t = t])
  case (idle w)
  then show ?case by (simp add: run_until_None)
next
  case (step w due f rest)
  let ?w = "w\<lparr>now := max (now w) due, timers := rest\<rparr>"
  note p = pick_Some [OF step.hyps]
  have nf: "\<forall>s. f \<noteq> CompleteSubmit s"
    using p step.prems by auto
  have "\<forall>x \<in> set (timers (fire f ?w)). \<forall>s. snd x \<noteq> CompleteSubmit s"
    using fire_keeps_form(4) [OF nf, of ?w] p step.prems by auto
  from step.IH [OF this] show ?case
    using fire_keeps_form(1-3) [OF nf, of ?w]
    by (simp add: run_until_Some [OF step.hyps])
qed

text \<open>
  Claim C6. When at least one field of the form is invalid, \<^verbatim>\<open>handleFormSubmit\<close> appends
  exactly one notification, the error notification \<open>Please correct the errors above\<close>
  (with its two timers), and returns: the submit button is as it was (not disabled, same
  label, not loading), no field value has changed (each field is as \<^verbatim>\<open>validateField\<close> left
  it, with its inline message), nothing is handed to the mail client and no completion of
  a submission is scheduled. If no submission was pending before, then
  however much time passes afterwards, the button, the field values and the mail handoff
  stay as they were.
\<close>

theorem submit_invalid_aborts:
  assumes "\<exists>f \<in> set (form_inputs w). \<not> fst (validateField f)"
  shows "notifications (handleFormSubmit w) =
           notifications w @ [\<lparr> note_message = ''Please correct the errors above'',
              note_type = ''error'',
              note_background = ''linear-gradient(135deg, #fb5607, #ff006e)'',
              note_border = ''#fb5607'', note_shown = False, note_attached = True \<rparr>]
     \<and> timers (handleFormSubmit w) =
           timers w @ [(now w + 100, AnimateIn (length (notifications w))),
                       (now w + 5000, AnimateOut (length (notifications w)))]
     \<and> submitBtn (handleFormSubmit w) = submitBtn w
     \<and> location_href (handleFormSubmit w) = location_href w
     \<and> map field_value (form_inputs (handleFormSubmit w)) = map field_value (form_inputs w)
     \<and> form_inputs (handleFormSubmit w) = map (\<lambda>f. snd (validateField f)) (form_inputs w)
     \<and> ((\<forall>x \<in> set (timers w). \<forall>s. snd x \<noteq> CompleteSubmit s) \<longrightarrow>
          submitBtn (run_until t (handleFormSubmit w)) = submitBtn w
          \<and> location_href (run_until t (handleFormSubmit w)) = location_href w
          \<and> map field_value (form_inputs (run_until t (handleFormSubmit w)))
              = map field_value (form_inputs w))"
proof -
  let ?w1 = "w\<lparr>form_inputs := map snd (map validateField (form_inputs w))\<rparr>"
  have inv: "\<not> list_all fst (map validateField (form_inputs w))"
    using assms invalid_form [of "form_inputs w"] by blast
  have h: "handleFormSubmit w = showNotification ''Please correct the errors above'' ''error'' ?w1"
    using inv by (simp add: handleFormSubmit_def Let_def)
  have v: "map field_value (form_inputs ?w1) = map field_value (form_inputs w)"
    by (simp add: validateField_keeps_value comp_def)
  have a: "notifications (handleFormSubmit w) =
           notifications w @ [\<lparr> note_message = ''Please correct the errors above'',
              note_type = ''error'',
              note_background = ''linear-gradient(135deg, #fb5607, #ff006e)'',
              note_border = ''#fb5607'', note_shown = False, note_attached = True \<rparr>]"
    unfolding h showNotification_effect by (simp add: notification_colours_def)
  have b: "timers (handleFormSubmit w) =
           timers w @ [(now w + 100, AnimateIn (length (notifications w))),
                       (now w + 5000, AnimateOut (length (notifications w)))]"
    unfolding h showNotification_effect by simp
  have c: "submitBtn (handleFormSubmit w) = submitBtn w"
    "location_href (handleFormSubmit w) = location_href w"
    "map field_value (form_inputs (handleFormSubmit w)) = map field_value (form_inputs w)"
    unfolding h showNotification_effect using v by simp_all
  have d: "submitBtn (run_until t (handleFormSubmit w)) = submitBtn w
          \<and> location_href (run_until t (handleFormSubmit w)) = location_href w
          \<and> map field_value (form_inputs (run_until t (handleFormSubmit w)))
              = map field_value (form_inputs w)"
    if "\<forall>x \<in> set (timers w). \<forall>s. snd x \<noteq> CompleteSubmit s"
  proof -
    have "\<forall>x \<in> set (timers (handleFormSubmit w)). \<forall>s. snd x \<noteq> CompleteSubmit s"
      using that by (auto simp: b)
    from run_keeps_form [OF this, of t] show ?thesis using c by simp
  qed
  have e: "form_inputs (handleFormSubmit w) = map (\<lambda>f. snd (validateField f)) (form_inputs w)"
    unfolding h showNotification_effect by (simp add: comp_def)
  show ?thesis using a b c d e by blast
qed

theorem submit_invalid_aborts_witness:
  "notifications (handleFormSubmit (page_loaded
      [\<lparr>field_name = ''email'', required = True, field_type = ''email'',
        field_value = ''a@b'', default_value = [],
        formGroup = \<lparr>error_class = False, error_message = None\<rparr>\<rparr>] ''Send Message''))
    = [\<lparr> note_message = ''Please correct the errors above'', note_type = ''error'',
         note_background = ''linear-gradient(135deg, #fb5607, #ff006e)'',
         note_border = ''#fb5607'', note_shown = False, note_attached = True \<rparr>]
   \<and> submitBtn (run_until 10000 (handleFormSubmit (page_loaded
      [\<lparr>field_name = ''email'', required = True, field_type = ''email'',
        field_value = ''a@b'', default_value = [],
        formGroup = \<lparr>error_class = False, error_message = None\<rparr>\<rparr>] ''Send Message'')))
    = \<lparr>btn_disabled = False, btn_text = ''Send Message'', btn_loading = False\<rparr>
   \<and> location_href (run_until 10000 (handleFormSubmit (page_loaded
      [\<lparr>field_name = ''email'', required = True, field_type = ''email'',
        field_value = ''a@b'', default_value = [],
        formGroup = \<lparr>error_class = False, error_message = None\<rparr>\<rparr>] ''Send Message'')))
    = None"
proof -
  have "\<not> fst (validateField \<lparr>field_name = ''email'', required = True, field_type = ''email'',
        field_value = ''a@b'', default_value = [],
        formGroup = \<lparr>error_class = False, error_message = None\<rparr>\<rparr>)"
    by (simp add: validateField_def trim_def js_whitespace_def emailPattern_def
        one_or_more_def email_char_def)
  then have "\<exists>f \<in> set (form_inputs (page_loaded
      [\<lparr>field_name = ''email'', required = True, field_type = ''email'',
        field_value = ''a@b'', default_value = [],
        formGroup = \<lparr>error_class = False, error_message = None\<rparr>\<rparr>] ''Send Message'')).
      \<not> fst (validateField f)"
    by (simp add: page_loaded_def)
  from submit_invalid_aborts [OF this, of 10000] show ?thesis
    by (simp add: page_loaded_def)
qed

subsection \<open>Notifications\<close>

lemma attached_fire:
  "i < length (notifications w) \<Longrightarrow>
     attached (fire f w) i \<longleftrightarrow> attached w i \<and> f \<noteq> RemoveNotification i"
  by (cases f)
     (auto simp: attached_def set_shown_def remove_notification_def setTimeout_def
        complete_submit_def showNotification_def Let_def nth_list_update nth_append)

lemma attached_frame [simp]:
  "attached (w\<lparr>now := n\<rparr>) i = attached w i"
  "attached (w\<lparr>timers := ts\<rparr>) i = attached w i"
  by (simp_all add: attached_def)

lemma removal_time_later:
  "due \<le> d \<Longrightarrow> removal_time (max n due) i (d, g) = removal_time n i (d, g)"
  by (cases g) auto

lemma removal_time_after:
  "t < d \<Longrightarrow> removal_time n i (d, g) = Some r \<Longrightarrow> t < r"
  by (cases g) (auto split: if_splits)

lemma removal_times_idle:
  assumes "pick t (timers w) = None"
  shows "removal_times (w\<lparr>now := max (now w) t\<rparr>) i = removal_times w i"
    and "\<forall>r \<in> removal_times w i. t < r"
proof -
  have late: "t < fst x" if "x \<in> set (timers w)" for x
    using pick_None [OF assms] that by blast
  have same: "removal_time (max (now w) t) i x = removal_time (now w) i x"
    if "x \<in> set (timers w)" for x
    using late [OF that] removal_time_later [of t "fst x" "now w" i "snd x"] by simp
  show "removal_times (w\<lparr>now := max (now w) t\<rparr>) i = removal_times w i"
    by (auto simp: removal_times_def same)
  show "\<forall>r \<in> removal_times w i. t < r"
    using late removal_time_after [of t _ "now w" i]
    by (fastforce simp: removal_times_def)
qed

lemma timers_fire:
  "timers (fire f w) =
     timers w @ (case f of
        AnimateOut j \<Rightarrow> [(now w + 300, RemoveNotification j)]
      | CompleteSubmit s \<Rightarrow> [(now w + 100, AnimateIn (length (notifications w))),
                             (now w + 5000, AnimateOut (length (notifications w))),
                             (now w + 500, ClearFormAnimation)]
      | _ \<Rightarrow> [])"
  by (cases f)
     (simp_all add: set_shown_def remove_notification_def setTimeout_def
        complete_submit_def showNotification_def Let_def)

lemma now_fire [simp]: "now (fire f w) = now w"
  by (cases f)
     (simp_all add: set_shown_def remove_notification_def setTimeout_def
        complete_submit_def showNotification_def Let_def)

lemma length_notifications_fire:
  "length (notifications w) \<le> length (notifications (fire f w))"
  by (cases f)
     (simp_all add: set_shown_def remove_notification_def setTimeout_def
        complete_submit_def showNotification_def Let_def)

lemma removal_times_step:
  assumes p: "pick t (timers w) = Some ((due, f), rest)"
    and i: "i < length (notifications w)"
  shows "f \<noteq> RemoveNotification i \<Longrightarrow>
           removal_times (fire f (w\<lparr>now := max (now w) due, timers := rest\<rparr>)) i
             = removal_times w i"
    and "f = RemoveNotification i \<Longrightarrow>
           removal_times (fire f (w\<lparr>now := max (now w) due, timers := rest\<rparr>)) i
             \<subseteq> removal_times w i
           \<and> removal_times w i
             \<subseteq> insert due (removal_times (fire f (w\<lparr>now := max (now w) due, timers := rest\<rparr>)) i)"
proof -
  note q = pick_Some [OF p]
  let ?w0 = "w\<lparr>now := max (now w) due, timers := rest\<rparr>"
  let ?new = "(case f of
        AnimateOut j \<Rightarrow> [(max (now w) due + 300, RemoveNotification j)]
      | CompleteSubmit s \<Rightarrow> [(max (now w) due + 100, AnimateIn (length (notifications w))),
                             (max (now w) due + 5000, AnimateOut (length (notifications w))),
                             (max (now w) due + 500, ClearFormAnimation)]
      | _ \<Rightarrow> [])"
  let ?old = "{r. \<exists>x \<in> set rest. removal_time (now w) i x = Some r}"
  have later: "removal_time (max (now w) due) i x = removal_time (now w) i x"
    if "x \<in> set (timers w)" for x
    using q that removal_time_later [of due "fst x" "now w" i "snd x"] by simp
  have rest: "set rest \<subseteq> set (timers w)" using q by auto
  have old: "{r. \<exists>x \<in> set rest. removal_time (max (now w) due) i x = Some r} = ?old"
    using later rest by (metis (no_types, lifting) subsetD)
  have tf: "timers (fire f ?w0) = rest @ ?new"
    by (simp add: timers_fire split: task.splits)
  have rt: "removal_times (fire f ?w0) i
      = ?old \<union> {r. \<exists>x \<in> set ?new. removal_time (max (now w) due) i x = Some r}"
    unfolding old [symmetric]
    by (auto simp: removal_times_def tf)
  have split: "removal_times w i = {r. removal_time (now w) i (due, f) = Some r} \<union> ?old"
    using q by (auto simp: removal_times_def)
  have new: "{r. \<exists>x \<in> set ?new. removal_time (max (now w) due) i x = Some r}
      = (if f = RemoveNotification i then {}
         else {r. removal_time (now w) i (due, f) = Some r})"
    using i by (cases f) (auto simp: max.commute)
  {
    assume "f \<noteq> RemoveNotification i"
    then show "removal_times (fire f ?w0) i = removal_times w i"
      unfolding rt split new by auto
  next
    assume "f = RemoveNotification i"
    then show "removal_times (fire f ?w0) i \<subseteq> removal_times w i
           \<and> removal_times w i \<subseteq> insert due (removal_times (fire f ?w0) i)"
      unfolding rt split new by auto
  }
qed

lemma run_removal:
  "i < length (notifications w) \<Longrightarrow>
     (attached (run_until t w) i \<longleftrightarrow> attached w i \<and> (\<forall>r \<in> removal_times w i. t < r))
     \<and> removal_times (run_until t w) i = {r \<in> removal_times w i. t < r}
     \<and> length (notifications w) \<le> length (notifications (run_until t w))
     \<and> now (run_until t w) = max (now w) t"
proof (induction w rule: run_until_induct [where t = t])
  case (idle w)
  show ?case
    using removal_times_idle [OF idle.hyps, of i]
    by (auto simp: run_until_None [OF idle.hyps])
next
  case (step w due f rest)
  let ?w = "fire f (w\<lparr>now := max (now w) due, timers := rest\<rparr>)"
  note q = pick_Some [OF step.hyps]
  have len: "length (notifications w) \<le> length (notifications ?w)"
    using length_notifications_fire [of "w\<lparr>now := max (now w) due, timers := rest\<rparr>" f]
    by simp
  then have i: "i < length (notifications ?w)" using step.prems by simp
  note ih = step.IH [OF i]
  have att: "attached ?w i \<longleftrightarrow> attached w i \<and> f \<noteq> RemoveNotification i"
    using step.prems by (simp add: attached_fire)
  have nw: "max (now ?w) t = max (now w) t" using q by (simp add: max_def)
  show ?case
  proof (cases "f = RemoveNotification i")
    case True
    note r = removal_times_step(2) [OF step.hyps step.prems True]
    have "due \<in> removal_times w i"
      using q True by (auto simp: removal_times_def intro!: bexI [of _ "(due, f)"])
    moreover have "due \<le> t" using q by simp
    ultimately have "\<not> (\<forall>r \<in> removal_times w i. t < r)" by force
    moreover have "{r \<in> removal_times ?w i. t < r} = {r \<in> removal_times w i. t < r}"
      using r \<open>due \<le> t\<close> by auto
    ultimately show ?thesis
      using ih att True len nw by (simp add: run_until_Some [OF step.hyps])
  next
    case False
    note r = removal_times_step(1) [OF step.hyps step.prems False]
    show ?thesis
      using ih att False len nw r by (simp add: run_until_Some [OF step.hyps])
  qed
qed

lemma shown_fire:
  "i < length (notifications w) \<Longrightarrow>
     shown (fire f w) i \<longleftrightarrow>
       (if f = AnimateIn i then True else if f = AnimateOut i then False else shown w i)"
  by (cases f)
     (auto simp: shown_def set_shown_def remove_notification_def setTimeout_def
        complete_submit_def showNotification_def Let_def nth_list_update nth_append)

lemma shown_frame [simp]:
  "shown (w\<lparr>now := n\<rparr>) i = shown w i"
  "shown (w\<lparr>timers := ts\<rparr>) i = shown w i"
  by (simp_all add: shown_def)

lemma fire_new_timers:
  assumes "i < length (notifications w)" "x \<in> set (timers (fire f w))" "x \<notin> set (timers w)"
  shows "snd x \<noteq> AnimateIn i" "snd x \<noteq> AnimateOut i"
  using assms by (auto simp: timers_fire split: task.splits)

lemma run_shown_early:
  "i < length (notifications w) \<Longrightarrow>
   (\<forall>x \<in> set (timers w). snd x = AnimateIn i \<or> snd x = AnimateOut i \<longrightarrow> t < fst x) \<Longrightarrow>
     shown (run_until t w) i = shown w i"
proof (induction w rule: run_until_induct [where t = t])
  case (idle w)
  then show ?case by (simp add: run_until_None)
next
  case (step w due f rest)
  let ?w0 = "w\<lparr>now := max (now w) due, timers := rest\<rparr>"
  note q = pick_Some [OF step.hyps]
  have i: "i < length (notifications (fire f ?w0))"
    using length_notifications_fire [of ?w0 f] step.prems(1) by simp
  have f: "f \<noteq> AnimateIn i" "f \<noteq> AnimateOut i"
    using q step.prems(2) by fastforce+
  have "\<forall>x \<in> set (timers (fire f ?w0)).
      snd x = AnimateIn i \<or> snd x = AnimateOut i \<longrightarrow> t < fst x"
  proof
    fix x assume x: "x \<in> set (timers (fire f ?w0))"
    show "snd x = AnimateIn i \<or> snd x = AnimateOut i \<longrightarrow> t < fst x"
    proof (cases "x \<in> set rest")
      case True
      then show ?thesis using q step.prems(2) by auto
    next
      case False
      then show ?thesis
        using fire_new_timers [of i ?w0 x f] x step.prems(1) by auto
    qed
  qed
  from step.IH [OF i this] show ?case
    using f step.prems(1) by (simp add: run_until_Some [OF step.hyps] shown_fire)
qed

lemma run_shown_in:
  "i < length (notifications w) \<Longrightarrow>
   (\<exists>d \<le> t. (d, AnimateIn i) \<in> set (timers w)) \<or> shown w i \<Longrightarrow>
   (\<forall>x \<in> set (timers w). snd x = AnimateOut i \<longrightarrow> t < fst x) \<Longrightarrow>
     shown (run_until t w) i"
proof (induction w rule: run_until_induct [where t = t])
  case (idle w)
  then show ?case
    using pick_None [OF idle.hyps] by (fastforce simp: run_until_None)
next
  case (step w due f rest)
  let ?w0 = "w\<lparr>now := max (now w) due, timers := rest\<rparr>"
  note q = pick_Some [OF step.hyps]
  have i: "i < length (notifications (fire f ?w0))"
    using length_notifications_fire [of ?w0 f] step.prems(1) by simp
  have f: "f \<noteq> AnimateOut i"
    using q step.prems(3) by fastforce
  have sh: "shown (fire f ?w0) i \<longleftrightarrow> f = AnimateIn i \<or> shown w i"
    using f step.prems(1) by (simp add: shown_fire)
  have a: "(\<exists>d \<le> t. (d, AnimateIn i) \<in> set (timers (fire f ?w0))) \<or> shown (fire f ?w0) i"
  proof (cases "f = AnimateIn i \<or> shown w i")
    case True
    then show ?thesis using sh by simp
  next
    case False
    then obtain d where d: "d \<le> t" "(d, AnimateIn i) \<in> set (timers w)"
      using step.prems(2) by blast
    then have "(d, AnimateIn i) \<in> set rest" using q False by auto
    then have "(d, AnimateIn i) \<in> set (timers (fire f ?w0))" by (simp add: timers_fire)
    with d show ?thesis by blast
  qed
  have b: "\<forall>x \<in> set (timers (fire f ?w0)). snd x = AnimateOut i \<longrightarrow> t < fst x"
  proof
    fix x assume x: "x \<in> set (timers (fire f ?w0))"
    show "snd x = AnimateOut i \<longrightarrow> t < fst x"
    proof (cases "x \<in> set rest")
      case True
      then show ?thesis using q step.prems(3) by auto
    next
      case False
      then show ?thesis
        using fire_new_timers(2) [of i ?w0 x f] x step.prems(1) by auto
    qed
  qed
  from step.IH [OF i a b] show ?case
    by (simp add: run_until_Some [OF step.hyps])
qed

lemma run_shown_out:
  "i < length (notifications w) \<Longrightarrow>
   (\<exists>d \<le> t. (d, AnimateOut i) \<in> set (timers w)) \<or> \<not> shown w i \<Longrightarrow>
   (\<forall>d'. (d', AnimateIn i) \<in> set (timers w) \<longrightarrow>
      (\<exists>d. d' < d \<and> d \<le> t \<and> (d, AnimateOut i) \<in> set (timers w))) \<Longrightarrow>
     \<not> shown (run_until t w) i"
proof (induction w rule: run_until_induct [where t = t])
  case (idle w)
  then show ?case
    using pick_None [OF idle.hyps] by (fastforce simp: run_until_None)
next
  case (step w due f rest)
  let ?w0 = "w\<lparr>now := max (now w) due, timers := rest\<rparr>"
  note q = pick_Some [OF step.hyps]
  have i: "i < length (notifications (fire f ?w0))"
    using length_notifications_fire [of ?w0 f] step.prems(1) by simp
  have sf: "shown (fire f ?w0) i \<longleftrightarrow>
      (if f = AnimateIn i then True else if f = AnimateOut i then False else shown w i)"
    using shown_fire [of i ?w0 f] step.prems(1) by simp
  have keep: "x \<in> set (timers (fire f ?w0))" if "x \<in> set (timers w)" "x \<noteq> (due, f)" for x
    using that q by (auto simp: timers_fire)
  have fresh: "snd x \<noteq> AnimateIn i \<and> snd x \<noteq> AnimateOut i"
    if "x \<in> set (timers (fire f ?w0))" "x \<notin> set rest" for x
    using fire_new_timers [of i ?w0 x f] that step.prems(1) by auto
  have b: "\<forall>d'. (d', AnimateIn i) \<in> set (timers (fire f ?w0)) \<longrightarrow>
      (\<exists>d. d' < d \<and> d \<le> t \<and> (d, AnimateOut i) \<in> set (timers (fire f ?w0)))"
  proof (intro allI impI)
    fix d' assume "(d', AnimateIn i) \<in> set (timers (fire f ?w0))"
    then have "(d', AnimateIn i) \<in> set rest" using fresh by fastforce
    then have m: "(d', AnimateIn i) \<in> set (timers w)" using q by auto
    then obtain d where d: "d' < d" "d \<le> t" "(d, AnimateOut i) \<in> set (timers w)"
      using step.prems(3) by blast
    have "due \<le> d'" using q m by fastforce
    then have "(d, AnimateOut i) \<noteq> (due, f)" using d(1) by auto
    from keep [OF d(3) this] d show
      "\<exists>d. d' < d \<and> d \<le> t \<and> (d, AnimateOut i) \<in> set (timers (fire f ?w0))" by blast
  qed
  have a: "(\<exists>d \<le> t. (d, AnimateOut i) \<in> set (timers (fire f ?w0))) \<or> \<not> shown (fire f ?w0) i"
  proof (cases "f = AnimateOut i")
    case True
    then show ?thesis using sf by (metis task.distinct(1))
  next
    case False
    show ?thesis
    proof (cases "f = AnimateIn i")
      case True
      then have "(due, AnimateIn i) \<in> set (timers w)" using q by auto
      then obtain d where d: "due < d" "d \<le> t" "(d, AnimateOut i) \<in> set (timers w)"
        using step.prems(3) by blast
      then have "(d, AnimateOut i) \<noteq> (due, f)" by auto
      from keep [OF d(3) this] d show ?thesis by blast
    next
      case nin: False
      show ?thesis
      proof (cases "shown w i")
        case True
        then obtain d where d: "d \<le> t" "(d, AnimateOut i) \<in> set (timers w)"
          using step.prems(2) by blast
        then have "(d, AnimateOut i) \<noteq> (due, f)" using False by auto
        from keep [OF d(2) this] d show ?thesis by blast
      next
        case False
        then show ?thesis using nin \<open>f \<noteq> AnimateOut i\<close> sf by simp
      qed
    qed
  qed
  from step.IH [OF i a b] show ?case
    by (simp add: run_until_Some [OF step.hyps])
qed

lemma wf_world_showNotification: "wf_world w \<Longrightarrow> wf_world (showNotification m ty w)"
  by (auto simp: wf_world_def showNotification_effect less_Suc_eq)

lemma wf_world_fire:
  "wf_world w \<Longrightarrow> \<forall>i. task_notification f = Some i \<longrightarrow> i < length (notifications w)
    \<Longrightarrow> wf_world (fire f w)"
  by (cases f)
     (auto simp: wf_world_def set_shown_def remove_notification_def setTimeout_def
        complete_submit_def showNotification_def Let_def less_Suc_eq)

lemma wf_world_run: "wf_world w \<Longrightarrow> wf_world (run_until t w)"
proof (induction w rule: run_until_induct [where t = t])
  case (idle w)
  then show ?case by (simp add: run_until_None wf_world_def)
next
  case (step w due f rest)
  let ?w0 = "w\<lparr>now := max (now w) due, timers := rest\<rparr>"
  note q = pick_Some [OF step.hyps]
  have "wf_world ?w0" using step.prems q by (auto simp: wf_world_def)
  moreover have "\<forall>i. task_notification f = Some i \<longrightarrow> i < length (notifications ?w0)"
    using step.prems q by (fastforce simp: wf_world_def)
  ultimately have "wf_world (fire f ?w0)" using wf_world_fire by blast
  from step.IH [OF this] show ?case by (simp add: run_until_Some [OF step.hyps])
qed

lemma wf_world_click: "wf_world w \<Longrightarrow> wf_world (click_notification i w)"
  by (auto simp: wf_world_def click_notification_def setTimeout_def set_shown_def)

lemma wf_world_submit: "wf_world w \<Longrightarrow> wf_world (handleFormSubmit w)"
  using wf_world_showNotification
    [of "w\<lparr>form_inputs := map snd (map validateField (form_inputs w))\<rparr>"]
  by (auto simp: handleFormSubmit_def Let_def setTimeout_def wf_world_def)

lemma wf_world_page_loaded: "wf_world (page_loaded fs label)"
  by (simp add: wf_world_def page_loaded_def)

lemma fresh_no_removal:
  assumes "wf_world w" "x \<in> set (timers w)"
  shows "removal_time n (length (notifications w)) x = None"
    and "snd x \<noteq> AnimateIn (length (notifications w))"
    and "snd x \<noteq> AnimateOut (length (notifications w))"
proof -
  obtain d g where x: "x = (d, g)" by (cases x)
  have "\<forall>i. task_notification g = Some i \<longrightarrow> i < length (notifications w)"
    using assms x by (fastforce simp: wf_world_def)
  then show "removal_time n (length (notifications w)) x = None"
    and "snd x \<noteq> AnimateIn (length (notifications w))"
    and "snd x \<noteq> AnimateOut (length (notifications w))"
    unfolding x by (cases g; auto)+
qed

lemma shown_new:
  assumes "wf_world w"
  shows "removal_times (showNotification m ty w) (length (notifications w)) = {now w + 5300}"
    and "attached (showNotification m ty w) (length (notifications w))"
    and "\<not> shown (showNotification m ty w) (length (notifications w))"
    and "length (notifications w) < length (notifications (showNotification m ty w))"
proof -
  show "removal_times (showNotification m ty w) (length (notifications w)) = {now w + 5300}"
    using fresh_no_removal(1) [OF assms]
    by (auto simp: removal_times_def showNotification_effect)
qed (simp_all add: attached_def shown_def showNotification_effect)

lemma click_effect:
  assumes "attached w i"
  shows "removal_times (click_notification i w) i = insert (now w + 300) (removal_times w i)"
    and "attached (click_notification i w) i"
    and "\<not> shown (click_notification i w) i"
    and "length (notifications (click_notification i w)) = length (notifications w)"
  using assms
  by (auto simp: removal_times_def attached_def shown_def click_notification_def
      setTimeout_def set_shown_def)

text \<open>
  Claim C7. A notification is created in a page \<open>w\<close> whose pending timers work on existing
  notifications. Its element is in the document. Without a click it is shown from 100 ms
  to 5000 ms after its creation, hidden from 5000 ms on, and in the document exactly
  until 5300 ms after its creation. If it is clicked \<open>d\<close> ms after its creation, with
  \<open>d < 5000\<close>, it is hidden at once and still in the document, and from then on it is in
  the document exactly until \<open>d + 300\<close> ms after its creation.
\<close>

theorem notification_dismissal:
  assumes "wf_world w" and "d < 5000"
  shows "attached (showNotification m ty w) (length (notifications w))
     \<and> (attached (run_until t (showNotification m ty w)) (length (notifications w))
          \<longleftrightarrow> t < now w + 5300)
     \<and> (shown (run_until t (showNotification m ty w)) (length (notifications w))
          \<longleftrightarrow> now w + 100 \<le> t \<and> t < now w + 5000)
     \<and> \<not> shown (click_notification (length (notifications w))
            (run_until (now w + d) (showNotification m ty w))) (length (notifications w))
     \<and> attached (click_notification (length (notifications w))
            (run_until (now w + d) (showNotification m ty w))) (length (notifications w))
     \<and> (attached (run_until t (click_notification (length (notifications w))
            (run_until (now w + d) (showNotification m ty w)))) (length (notifications w))
          \<longleftrightarrow> t < now w + d + 300)"
proof -
  let ?i = "length (notifications w)"
  let ?w1 = "showNotification m ty w"
  let ?w2 = "run_until (now w + d) ?w1"
  let ?w3 = "click_notification ?i ?w2"
  note n = shown_new [OF assms(1), of m ty]
  note r1 = run_removal [OF n(4)]
  have a1: "attached (run_until t ?w1) ?i \<longleftrightarrow> t < now w + 5300"
    using conjunct1 [OF r1 [of t]] n by simp
  have t1: "set (timers ?w1)
      = set (timers w) \<union> {(now w + 100, AnimateIn ?i), (now w + 5000, AnimateOut ?i)}"
    by (auto simp: showNotification_effect)
  have old: "snd x \<noteq> AnimateIn ?i \<and> snd x \<noteq> AnimateOut ?i" if "x \<in> set (timers w)" for x
    using fresh_no_removal(2,3) [OF assms(1) that] by simp
  have s1: "shown (run_until t ?w1) ?i \<longleftrightarrow> now w + 100 \<le> t \<and> t < now w + 5000"
  proof -
    consider "t < now w + 100" | "now w + 100 \<le> t" "t < now w + 5000" | "now w + 5000 \<le> t"
      by linarith
    then show ?thesis
    proof cases
      case 1
      have "\<forall>x \<in> set (timers ?w1). snd x = AnimateIn ?i \<or> snd x = AnimateOut ?i \<longrightarrow> t < fst x"
        unfolding t1 using old 1 by auto
      from run_shown_early [OF n(4) this] show ?thesis using n(3) 1 by simp
    next
      case 2
      have "(\<exists>d \<le> t. (d, AnimateIn ?i) \<in> set (timers ?w1)) \<or> shown ?w1 ?i"
        unfolding t1 using 2 by auto
      moreover have "\<forall>x \<in> set (timers ?w1). snd x = AnimateOut ?i \<longrightarrow> t < fst x"
        unfolding t1 using old 2 by auto
      ultimately show ?thesis using run_shown_in [OF n(4)] 2 by simp
    next
      case 3
      have "(\<exists>d \<le> t. (d, AnimateOut ?i) \<in> set (timers ?w1)) \<or> \<not> shown ?w1 ?i"
        unfolding t1 using 3 by auto
      moreover have "\<forall>d'. (d', AnimateIn ?i) \<in> set (timers ?w1) \<longrightarrow>
          (\<exists>d. d' < d \<and> d \<le> t \<and> (d, AnimateOut ?i) \<in> set (timers ?w1))"
      proof (intro allI impI)
        fix d' assume "(d', AnimateIn ?i) \<in> set (timers ?w1)"
        then have "d' = now w + 100" unfolding t1 using old by fastforce
        moreover have "(now w + 5000, AnimateOut ?i) \<in> set (timers ?w1)"
          unfolding t1 by simp
        ultimately show "\<exists>d. d' < d \<and> d \<le> t \<and> (d, AnimateOut ?i) \<in> set (timers ?w1)"
          using 3 by (intro exI [of _ "now w + 5000"]) simp
      qed
      ultimately show ?thesis using run_shown_out [OF n(4)] 3 by simp
    qed
  qed
  have r2: "attached ?w2 ?i" "removal_times ?w2 ?i = {now w + 5300}"
    "now ?w2 = now w + d" "?i < length (notifications ?w2)"
    using r1 [of "now w + d"] n assms(2) by (auto simp: showNotification_effect)
  note c = click_effect [OF r2(1)]
  have i3: "?i < length (notifications ?w3)" using c(4) r2(4) by simp
  have a3: "attached (run_until t ?w3) ?i \<longleftrightarrow> t < now w + d + 300"
    using conjunct1 [OF run_removal [OF i3, of t]] c r2 assms(2) by auto
  show ?thesis using n(2) a1 s1 c(2,3) a3 by blast
qed

theorem notification_dismissal_witness:
  "attached (run_until 1299 (click_notification 0
      (run_until 1000 (showNotification ''x'' ''error'' (page_loaded [] ''Send''))))) 0
   \<and> \<not> attached (run_until 1300 (click_notification 0
      (run_until 1000 (showNotification ''x'' ''error'' (page_loaded [] ''Send''))))) 0
   \<and> \<not> shown (click_notification 0
      (run_until 1000 (showNotification ''x'' ''error'' (page_loaded [] ''Send'')))) 0
   \<and> attached (run_until 5299 (showNotification ''x'' ''error'' (page_loaded [] ''Send''))) 0
   \<and> \<not> attached (run_until 5300 (showNotification ''x'' ''error'' (page_loaded [] ''Send''))) 0
   \<and> shown (run_until 4999 (showNotification ''x'' ''error'' (page_loaded [] ''Send''))) 0
   \<and> \<not> shown (run_until 5000 (showNotification ''x'' ''error'' (page_loaded [] ''Send''))) 0"
proof -
  have w: "wf_world (page_loaded [] ''Send'')" by (rule wf_world_page_loaded)
  have d: "(1000::nat) < 5000" by simp
  have z: "length (notifications (page_loaded [] ''Send'')) = 0" "now (page_loaded [] ''Send'') = 0"
    by (simp_all add: page_loaded_def)
  show ?thesis
    using notification_dismissal [OF w d, of "''x''" "''error''" 1299]
      notification_dismissal [OF w d, of "''x''" "''error''" 1300]
      notification_dismissal [OF w d, of "''x''" "''error''" 5299]
      notification_dismissal [OF w d, of "''x''" "''error''" 5300]
      notification_dismissal [OF w d, of "''x''" "''error''" 4999]
      notification_dismissal [OF w d, of "''x''" "''error''" 5000]
    unfolding z by simp
qed

subsection \<open>Evaluating numbers\<close>

lemma bit_length_numeral:
  "bit_length 0 = 0"
  "bit_length 1 = 1"
  "bit_length (Suc 0) = 1"
  "bit_length (numeral Num.One) = 1"
  "bit_length (numeral (Num.Bit0 n)) = Suc (bit_length (numeral n))"
  "bit_length (numeral (Num.Bit1 n)) = Suc (bit_length (numeral n))"
proof -
  show z: "bit_length 0 = 0" by (simp add: bit_length.simps)
  show s: "bit_length (Suc 0) = 1" by (subst bit_length.simps) (simp add: z)
  then show o: "bit_length 1 = 1" by simp
  show "bit_length (numeral Num.One) = 1" using s by simp
  have "numeral (Num.Bit0 n) div 2 = (numeral n :: nat)" by simp
  then show "bit_length (numeral (Num.Bit0 n)) = Suc (bit_length (numeral n))"
    by (subst bit_length.simps) simp
  have "numeral (Num.Bit1 n) div 2 = (numeral n :: nat)" by simp
  then show "bit_length (numeral (Num.Bit1 n)) = Suc (bit_length (numeral n))"
    by (subst bit_length.simps) simp
qed

lemma floor_rat_numeral:
  "\<lfloor>numeral a / numeral b :: rat\<rfloor> = numeral a div numeral b"
  "\<lfloor>- (numeral a / numeral b) :: rat\<rfloor> = - numeral a div numeral b"
  "\<lfloor>1 / numeral b :: rat\<rfloor> = 1 div numeral b"
  "\<lceil>numeral a / numeral b :: rat\<rceil> = - (- numeral a div numeral b)"
  "\<lceil>1 / numeral b :: rat\<rceil> = - (- 1 div numeral b)"
proof -
  show "\<lfloor>numeral a / numeral b :: rat\<rfloor> = numeral a div numeral b"
    by (metis floor_divide_of_int_eq of_int_numeral)
  show "\<lfloor>- (numeral a / numeral b) :: rat\<rfloor> = - numeral a div numeral b"
    by (metis divide_minus_left floor_divide_of_int_eq of_int_neg_numeral of_int_numeral)
  show "\<lfloor>1 / numeral b :: rat\<rfloor> = 1 div numeral b"
    by (metis floor_divide_of_int_eq of_int_1 of_int_numeral)
  show "\<lceil>numeral a / numeral b :: rat\<rceil> = - (- numeral a div numeral b)"
    using ceiling_divide_eq_div [of "numeral a" "numeral b", where ?'a = rat] by simp
  show "\<lceil>1 / numeral b :: rat\<rceil> = - (- 1 div numeral b)"
    using ceiling_divide_eq_div [of 1 "numeral b", where ?'a = rat] by simp
qed

lemma decimal_eval:
  "n < 10 \<Longrightarrow> decimal n = [digit_char n]"
  "10 \<le> n \<Longrightarrow> decimal n = decimal (n div 10) @ [digit_char (n mod 10)]"
  by (subst decimal.simps, simp)+

lemma stat_frames_numeral:
  "stat_frames (numeral k) c =
     (if timer_active c
      then textContent (counter_tick c) # stat_frames (pred_numeral k) (counter_tick c)
      else [])"
  by (simp add: numeral_eq_Suc)

lemma counter_after_numeral:
  "counter_after (numeral k) c = counter_after (pred_numeral k) (counter_period c)"
  by (simp add: numeral_eq_Suc)

lemmas num_eval = round_to_double_def with_sign_def round_to_multiple_def
  quantum_exponent_def floor_log2_def bit_length_numeral floor_rat_numeral
  pow2_def round_half_even_def

lemmas parse_eval = parseFloat_def unsigned_literal_def exponent_part_def is_digit_def
  digits_value_def digit_value_def pow10_def js_whitespace_def Let_def

lemmas format_eval = counter_format_def nat_to_string_def integral_to_string_def
  fixed2_magnitude_def two_decimals_def decimal_eval digit_char_def

lemmas counter_eval = counter_tick_def counter_update_def counter_period_def
  stat_frames_numeral counter_after_numeral

subsection \<open>Formatting\<close>

lemma digit_char_digit: "n < 10 \<Longrightarrow> is_digit (digit_char n)"
proof -
  assume "n < 10"
  then have "n \<in> {0, 1, 2, 3, 4, 5, 6, 7, 8, 9}" by auto
  then show ?thesis by (auto simp: digit_char_def is_digit_def)
qed

lemma decimal_digits: "decimal n \<noteq> [] \<and> (\<forall>c \<in> set (decimal n). is_digit c)"
proof (induction n rule: decimal.induct)
  case (1 n)
  show ?case
  proof (cases "n < 10")
    case True
    then show ?thesis by (simp add: decimal_eval(1) digit_char_digit)
  next
    case False
    then have "decimal n = decimal (n div 10) @ [digit_char (n mod 10)]"
      by (simp add: decimal_eval(2))
    moreover have "is_digit (digit_char (n mod 10))" by (simp add: digit_char_digit)
    ultimately show ?thesis using 1 False by auto
  qed
qed

lemma is_digit_chars: "is_digit c \<Longrightarrow> c \<noteq> CHR ''+'' \<and> c \<in> set ''-.0123456789''"
  by (auto simp: is_digit_def)

lemma ends_in_digit_append: "ends_in_digit t \<Longrightarrow> ends_in_digit (s @ t)"
  by (simp add: ends_in_digit_def)

lemma ends_in_digit_Cons: "ends_in_digit t \<Longrightarrow> ends_in_digit (c # t)"
  by (simp add: ends_in_digit_def)

lemma set_with_point: "set (take k xs @ ''.'' @ drop k xs) = insert (CHR ''.'') (set xs)"
proof -
  have "set (take k xs) \<union> set (drop k xs) = set xs"
    by (metis append_take_drop_id set_append)
  then show ?thesis by auto
qed

lemma ends_in_digit_decimal: "ends_in_digit (decimal n)"
  using decimal_digits [of n] by (simp add: ends_in_digit_def)

lemma ends_in_digit_zeros: "ends_in_digit s \<Longrightarrow> ends_in_digit (s @ replicate k (CHR ''0''))"
  by (cases k) (simp_all add: ends_in_digit_def is_digit_def)

lemma ends_in_digit_nat_to_string: "ends_in_digit (nat_to_string k)"
proof (cases "k < 2 ^ 53")
  case True
  then show ?thesis by (simp add: nat_to_string_def ends_in_digit_decimal)
next
  case False
  show ?thesis
  proof (cases "shortest_digits k")
    case None
    with False show ?thesis by (simp add: nat_to_string_def ends_in_digit_decimal)
  next
    case (Some t)
    obtain j s n where t: "t = (j, s, n)" by (cases t)
    have e: "ends_in_digit (''e+'' @ decimal (n - 1))"
      by (rule ends_in_digit_append) (rule ends_in_digit_decimal)
    have "ends_in_digit (decimal s @ replicate (n - j) (CHR ''0''))"
      by (rule ends_in_digit_zeros) (rule ends_in_digit_decimal)
    moreover have "ends_in_digit (decimal s @ ''e+'' @ decimal (n - 1))"
      by (rule ends_in_digit_append) (rule e)
    moreover have "ends_in_digit (take 1 (decimal s) @ ''.'' @ drop 1 (decimal s) @ ''e+'' @ decimal (n - 1))"
      by (rule ends_in_digit_append, rule ends_in_digit_append, rule ends_in_digit_append)
         (rule e)
    ultimately show ?thesis
      using False Some t by (simp add: nat_to_string_def)
  qed
qed

lemma two_decimals_last:
  assumes "m \<noteq> []" "\<forall>c \<in> set m. is_digit c"
  shows "ends_in_digit (two_decimals m)"
    and "\<forall>c \<in> set (two_decimals m). c \<in> set ''-.0123456789''"
    and "3 \<le> length (two_decimals m)"
    and "two_decimals m ! (length (two_decimals m) - 3) = CHR ''.''"
proof -
  let ?p = "replicate (3 - length m) (CHR ''0'') @ m"
  have z: "is_digit (CHR ''0'')" by (simp add: is_digit_def)
  have d: "\<forall>c \<in> set ?p. is_digit c" using assms(2) z by auto
  show "ends_in_digit (two_decimals m)"
  proof (cases "length m \<le> 2")
    case True
    then have "drop 1 ?p \<noteq> []" using assms(1) by (cases m) auto
    moreover have "last (drop 1 ?p) = last m"
      using True assms(1) by (cases m) (auto simp: last_drop)
    ultimately show ?thesis
      using True assms by (simp add: two_decimals_def ends_in_digit_def)
  next
    case False
    then have "drop (length m - 2) m \<noteq> []" by simp
    moreover have "last (drop (length m - 2) m) = last m"
      using False by (simp add: last_drop)
    ultimately show ?thesis
      using False assms by (simp add: two_decimals_def ends_in_digit_def)
  qed
  show "\<forall>c \<in> set (two_decimals m). c \<in> set ''-.0123456789''"
  proof
    fix c assume c: "c \<in> set (two_decimals m)"
    have "set (two_decimals m) \<subseteq> insert (CHR ''.'') (set ?p)"
    proof (cases "length m \<le> 2")
      case True
      then have "two_decimals m = take 1 ?p @ ''.'' @ drop 1 ?p"
        by (simp only: two_decimals_def if_True)
      then show ?thesis by (simp only: set_with_point subset_refl)
    next
      case False
      then have "two_decimals m = take (length m - 2) m @ ''.'' @ drop (length m - 2) m"
        by (simp only: two_decimals_def if_False)
      then have "set (two_decimals m) = insert (CHR ''.'') (set m)"
        by (simp only: set_with_point)
      then show ?thesis by auto
    qed
    then have "c = CHR ''.'' \<or> c \<in> set ?p" using c by blast
    then show "c \<in> set ''-.0123456789''"
      using d is_digit_chars by fastforce
  qed
  show "3 \<le> length (two_decimals m)"
    using assms(1) by (cases m) (auto simp: two_decimals_def)
  show "two_decimals m ! (length (two_decimals m) - 3) = CHR ''.''"
  proof (cases "length m \<le> 2")
    case True
    then have l: "length ?p = 3" using assms(1) by (cases m) auto
    then have "length (two_decimals m) = 4" using True by (simp add: two_decimals_def)
    then show ?thesis using True l by (simp add: two_decimals_def nth_append)
  next
    case False
    then have "length (two_decimals m) = length m + 1" by (simp add: two_decimals_def)
    then show ?thesis using False by (simp add: two_decimals_def nth_append)
  qed
qed

lemma toFixed2_ends_in_digit: "toFixed2 x \<noteq> [] \<and> last (toFixed2 x) \<noteq> CHR ''+''"
proof (cases x)
  case (Fin a)
  have "ends_in_digit (fixed2_magnitude q)" for q
    unfolding fixed2_magnitude_def
    using ends_in_digit_nat_to_string two_decimals_last(1) decimal_digits by simp
  then have "ends_in_digit (toFixed2 x)"
    using Fin by (simp add: ends_in_digit_Cons)
  then show ?thesis using is_digit_chars by (auto simp: ends_in_digit_def)
qed simp_all

lemma toFixed2_two_decimals:
  assumes "\<bar>a\<bar> < 10 ^ 21"
  shows "\<forall>c \<in> set (toFixed2 (Fin a)). c \<in> set ''-.0123456789''"
    and "3 \<le> length (toFixed2 (Fin a))"
    and "toFixed2 (Fin a) ! (length (toFixed2 (Fin a)) - 3) = CHR ''.''"
proof -
  let ?m = "decimal (nat \<lfloor>\<bar>a\<bar> * 100 + 1 / 2\<rfloor>)"
  note t = two_decimals_last [of ?m, OF conjunct1 [OF decimal_digits] conjunct2 [OF decimal_digits]]
  have f: "fixed2_magnitude \<bar>a\<bar> = two_decimals ?m"
    using assms by (simp add: fixed2_magnitude_def)
  have s: "toFixed2 (Fin a) = (if a < 0 then ''-'' @ two_decimals ?m else two_decimals ?m)"
    using f by (auto simp: abs_if)
  show "\<forall>c \<in> set (toFixed2 (Fin a)). c \<in> set ''-.0123456789''"
    unfolding s using t(2) by auto
  show "3 \<le> length (toFixed2 (Fin a))"
    unfolding s using t(3) by auto
  show "toFixed2 (Fin a) ! (length (toFixed2 (Fin a)) - 3) = CHR ''.''"
    unfolding s using t(3,4) by (auto simp: nth_Cons')
qed

subsection \<open>Counter animation\<close>

lemma counter_tick_fields:
  "finalValue (counter_tick c) = finalValue c"
  "numericValue (counter_tick c) = numericValue c"
  "increment (counter_tick c) = increment c"
  "textContent (counter_tick c) = counter_format (finalValue c) (currentValue (counter_tick c))"
  "timer_active c \<Longrightarrow> \<not> timer_active (counter_tick c) \<Longrightarrow>
     currentValue (counter_tick c) = numericValue c"
  by (simp_all add: counter_tick_def counter_update_def split: if_splits)

lemma counter_after_Suc: "counter_after (Suc n) c = counter_period (counter_after n c)"
  by (induction n arbitrary: c) simp_all

lemma counter_after_fields:
  "finalValue (counter_after n c) = finalValue c"
  "numericValue (counter_after n c) = numericValue c"
  by (induction n arbitrary: c) (simp_all add: counter_period_def counter_tick_fields)

lemma counter_after_rendered:
  assumes "timer_active c" "0 < n"
  shows "textContent (counter_after n c)
           = counter_format (finalValue c) (currentValue (counter_after n c))"
  using assms(2)
proof (induction n)
  case 0
  then show ?case by simp
next
  case (Suc n)
  show ?case
  proof (cases "timer_active (counter_after n c)")
    case True
    then show ?thesis
      by (simp add: counter_after_Suc counter_period_def counter_tick_fields
          counter_after_fields del: counter_after.simps)
  next
    case False
    then have "0 < n" using assms(1) by (cases n) simp_all
    with Suc.IH False show ?thesis
      by (simp add: counter_after_Suc counter_period_def del: counter_after.simps)
  qed
qed

lemma counter_after_finished:
  assumes "timer_active c" "\<not> timer_active (counter_after n c)"
  shows "currentValue (counter_after n c) = numericValue c"
  using assms(2)
proof (induction n)
  case 0
  then show ?case using assms(1) by simp
next
  case (Suc n)
  show ?case
  proof (cases "timer_active (counter_after n c)")
    case True
    then show ?thesis
      using Suc.prems counter_tick_fields(5) [OF True]
      by (simp add: counter_after_Suc counter_period_def counter_after_fields
          del: counter_after.simps)
  next
    case False
    with Suc.IH show ?thesis
      by (simp add: counter_after_Suc counter_period_def del: counter_after.simps)
  qed
qed

lemma stat_frames_nth:
  "k < length (stat_frames n c) \<Longrightarrow>
     stat_frames n c ! k = textContent (counter_after (Suc k) c)
     \<and> timer_active (counter_after k c)"
proof (induction n arbitrary: c k)
  case 0
  then show ?case by simp
next
  case (Suc n)
  then have a: "timer_active c" by (auto split: if_splits)
  show ?case
  proof (cases k)
    case 0
    then show ?thesis using a by (simp add: counter_period_def)
  next
    case (Suc j)
    then have "j < length (stat_frames n (counter_tick c))" using Suc.prems a by simp
    from Suc.IH [OF this] show ?thesis
      using a Suc by (simp add: counter_period_def)
  qed
qed

lemma stat_frames_inactive: "\<not> timer_active c \<Longrightarrow> stat_frames n c = []"
  by (cases n) simp_all


lemma stat_frames_take: "stat_frames m c = take m (stat_frames (m + k) c)"
  by (induction m arbitrary: c) simp_all

lemma stat_frames_length: "length (stat_frames n c) \<le> n"
  by (induction n arbitrary: c) simp_all

lemma stat_frames_stopped:
  "length (stat_frames n c) < n \<Longrightarrow> \<not> timer_active (counter_after (length (stat_frames n c)) c)"
proof (induction n arbitrary: c)
  case 0
  then show ?case by simp
next
  case (Suc n)
  show ?case
  proof (cases "timer_active c")
    case True
    then have "length (stat_frames n (counter_tick c)) < n" using Suc.prems by simp
    from Suc.IH [OF this] show ?thesis using True by (simp add: counter_period_def)
  next
    case False
    then show ?thesis by simp
  qed
qed

lemma counter_after_stopped:
  "\<not> timer_active (counter_after m c) \<Longrightarrow> counter_after (m + k) c = counter_after m c"
proof (induction k)
  case 0
  then show ?case by simp
next
  case (Suc k)
  have "counter_after (m + k) c = counter_after m c" using Suc by blast
  then have "counter_after (Suc (m + k)) c = counter_period (counter_after m c)"
    by (simp only: counter_after_Suc)
  moreover have "counter_period (counter_after m c) = counter_after m c"
    using Suc.prems by (simp add: counter_period_def)
  ultimately show ?case by simp
qed

lemma stat_frames_after_stop:
  "\<not> timer_active (counter_after m c) \<Longrightarrow> stat_frames (m + k) c = stat_frames m c"
proof (induction m arbitrary: c)
  case 0
  then show ?case by (simp add: stat_frames_inactive)
next
  case (Suc m)
  show ?case
  proof (cases "timer_active c")
    case True
    then have "\<not> timer_active (counter_after m (counter_tick c))"
      using Suc.prems by (simp add: counter_period_def)
    from Suc.IH [OF this] show ?thesis using True by simp
  next
    case False
    then show ?thesis by (simp add: stat_frames_inactive)
  qed
qed

subsection \<open>The counter on 42+\<close>

lemma parseFloat_42: "parseFloat ''42+'' = Fin 42"
  by (simp add: parse_eval num_eval)

lemma animate_42:
  "animateStatValue ''42+'' =
     \<lparr> finalValue = ''42+'', numericValue = Fin 42,
       increment = Fin (7566047373982433 / 9007199254740992),
       currentValue = Fin 0, timer_active = True, textContent = ''42+'' \<rparr>"
  by (simp add: animateStatValue_def parseFloat_42 num_eval)

lemma stat_frames_42:
  "stat_frames 51 (animateStatValue ''42+'') =
     [
      ''0+'', ''1+'', ''2+'', ''3+'', ''4+'', ''5+'', ''5+'', ''6+'', ''7+'', ''8+'',
      ''9+'', ''10+'', ''10+'', ''11+'', ''12+'', ''13+'', ''14+'', ''15+'', ''15+'',
      ''16+'', ''17+'', ''18+'', ''19+'', ''20+'', ''21+'', ''21+'', ''22+'', ''23+'',
      ''24+'', ''25+'', ''26+'', ''26+'', ''27+'', ''28+'', ''29+'', ''30+'', ''31+'',
      ''31+'', ''32+'', ''33+'', ''34+'', ''35+'', ''36+'', ''36+'', ''37+'', ''38+'',
      ''39+'', ''40+'', ''41+'', ''42+'']"
  unfolding animate_42
  by (simp add: counter_eval num_eval format_eval)

lemma stat_frames_42_values:
  "stat_frames 51 (animateStatValue ''42+'') = map (\<lambda>k. decimal k @ ''+'') rendered_42"
  unfolding stat_frames_42 rendered_42_def
  by (simp add: decimal_eval digit_char_def)

lemma stat_frames_42_length: "length (stat_frames 51 (animateStatValue ''42+'')) = 50"
  unfolding stat_frames_42 by simp

lemma counter_42_stopped: "\<not> timer_active (counter_after 50 (animateStatValue ''42+''))"
  using stat_frames_stopped [of 51 "animateStatValue ''42+''"]
  by (simp add: stat_frames_42_length)

lemma stat_frames_42_50:
  "stat_frames 50 (animateStatValue ''42+'') = stat_frames 51 (animateStatValue ''42+'')"
  using stat_frames_after_stop [OF counter_42_stopped, of 1] by simp


text \<open>
  Claim C3, as the code has it. For the text \<open>42+\<close> the interval's callback runs 50 times,
  40 ms apart (2000 ms in all), and then the interval is cleared. Every rendered text is
  the floor of the running value followed by \<open>+\<close>. The rendered numbers start at 0, end at
  42 and never decrease; since 50 steps render only 43 different numbers, some are
  rendered twice. The last text is \<open>42+\<close> and stays.
\<close>

theorem counter_42_plus:
  "stat_frames 50 (animateStatValue ''42+'') = map (\<lambda>k. decimal k @ ''+'') rendered_42
   \<and> length rendered_42 = 50 \<and> sorted rendered_42
   \<and> hd rendered_42 = 0 \<and> last rendered_42 = 42
   \<and> last (stat_frames 50 (animateStatValue ''42+'')) = ''42+''
   \<and> (\<forall>n. 50 \<le> n \<longrightarrow>
         stat_frames n (animateStatValue ''42+'') = stat_frames 50 (animateStatValue ''42+'')
         \<and> textContent (counter_after n (animateStatValue ''42+'')) = ''42+'')
   \<and> stepTime = 40 \<and> 50 * stepTime = 2000"
proof -
  let ?c = "animateStatValue ''42+''"
  have f: "stat_frames 50 ?c = map (\<lambda>k. decimal k @ ''+'') rendered_42"
    by (simp only: stat_frames_42_50 stat_frames_42_values)
  have l: "last (stat_frames 50 ?c) = ''42+''"
    unfolding stat_frames_42_50 stat_frames_42 by simp
  have t: "textContent (counter_after 50 ?c) = ''42+''"
    using stat_frames_nth [of 49 51 ?c]
    unfolding stat_frames_42 by simp
  have s: "stat_frames n ?c = stat_frames 50 ?c \<and> textContent (counter_after n ?c) = ''42+''"
    if "50 \<le> n" for n
  proof -
    have n: "n = 50 + (n - 50)" using that by simp
    show ?thesis
      using stat_frames_after_stop [OF counter_42_stopped, of "n - 50"]
        counter_after_stopped [OF counter_42_stopped, of "n - 50"] t
      unfolding n [symmetric]
      by simp
  qed
  have r: "length rendered_42 = 50" "sorted rendered_42" "hd rendered_42 = 0"
    "last rendered_42 = 42"
    by (simp_all add: rendered_42_def)
  have S: "\<forall>n. 50 \<le> n \<longrightarrow>
         stat_frames n ?c = stat_frames 50 ?c \<and> textContent (counter_after n ?c) = ''42+''"
    using s by blast
  have st: "stepTime = 40 \<and> 50 * stepTime = 2000" by (simp add: stepTime_def)
  show ?thesis
    by (rule conjI [OF f conjI [OF r(1) conjI [OF r(2) conjI [OF r(3) conjI [OF r(4)
          conjI [OF l conjI [OF S st]]]]]]])
qed

theorem counter_42_plus_witness:
  "length (stat_frames 60 (animateStatValue ''42+'')) = 50
   \<and> textContent (counter_after 60 (animateStatValue ''42+'')) = ''42+''"
proof -
  have "(50::nat) \<le> 60" by simp
  then have "stat_frames 60 (animateStatValue ''42+'') = stat_frames 50 (animateStatValue ''42+'')
     \<and> textContent (counter_after 60 (animateStatValue ''42+'')) = ''42+''"
    using counter_42_plus by blast
  moreover have "length (stat_frames 50 (animateStatValue ''42+'')) = 50"
    using counter_42_plus by simp
  ultimately show ?thesis by simp
qed

text \<open>
  The claim as stated fails: the rendered values are not strictly increasing. The sixth
  and the seventh step (running values about 5.04 and 5.88) both render \<open>5+\<close>.
\<close>

theorem counter_42_plus_counterexample:
  "stat_frames 50 (animateStatValue ''42+'') ! 5 = ''5+''
   \<and> stat_frames 50 (animateStatValue ''42+'') ! 6 = ''5+''
   \<and> \<not> sorted_wrt (<) (take 7 rendered_42)
   \<and> take 7 (stat_frames 50 (animateStatValue ''42+''))
       = map (\<lambda>k. decimal k @ ''+'') (take 7 rendered_42)"
proof -
  have "take 7 (stat_frames 50 (animateStatValue ''42+''))
       = map (\<lambda>k. decimal k @ ''+'') (take 7 rendered_42)"
    by (simp only: stat_frames_42_50 stat_frames_42_values take_map)
  moreover have "stat_frames 50 (animateStatValue ''42+'') ! 5 = ''5+''"
    "stat_frames 50 (animateStatValue ''42+'') ! 6 = ''5+''"
    unfolding stat_frames_42_50 stat_frames_42 by simp_all
  moreover have "\<not> sorted_wrt (<) (take 7 rendered_42)"
    by (simp add: rendered_42_def)
  ultimately show ?thesis by simp
qed

subsection \<open>The counter on texts with a decimal point\<close>

lemma animate_fields:
  "finalValue (animateStatValue txt) = txt"
  "numericValue (animateStatValue txt) = parseFloat txt"
  "currentValue (animateStatValue txt) = Fin 0"
  "textContent (animateStatValue txt) = txt"
  "timer_active (animateStatValue txt) \<longleftrightarrow> parseFloat txt \<noteq> NaN"
  by (simp_all add: animateStatValue_def) (cases "parseFloat txt"; simp)

lemma parseFloat_35: "parseFloat ''3.5+'' = Fin (7 / 2)"
  by (simp add: parse_eval num_eval)

lemma animate_35:
  "animateStatValue ''3.5+'' =
     \<lparr> finalValue = ''3.5+'', numericValue = Fin (7 / 2),
       increment = Fin (1261007895663739 / 18014398509481984),
       currentValue = Fin 0, timer_active = True, textContent = ''3.5+'' \<rparr>"
  by (simp add: animateStatValue_def parseFloat_35 num_eval)

lemma stat_frames_35:
  "stat_frames 52 (animateStatValue ''3.5+'') =
     [
      ''0.07'', ''0.14'', ''0.21'', ''0.28'', ''0.35'', ''0.42'', ''0.49'', ''0.56'',
      ''0.63'', ''0.70'', ''0.77'', ''0.84'', ''0.91'', ''0.98'', ''1.05'', ''1.12'',
      ''1.19'', ''1.26'', ''1.33'', ''1.40'', ''1.47'', ''1.54'', ''1.61'', ''1.68'',
      ''1.75'', ''1.82'', ''1.89'', ''1.96'', ''2.03'', ''2.10'', ''2.17'', ''2.24'',
      ''2.31'', ''2.38'', ''2.45'', ''2.52'', ''2.59'', ''2.66'', ''2.73'', ''2.80'',
      ''2.87'', ''2.94'', ''3.01'', ''3.08'', ''3.15'', ''3.22'', ''3.29'', ''3.36'',
      ''3.43'', ''3.50'', ''3.50'']"
  unfolding animate_35
  by (simp add: counter_eval num_eval format_eval)

lemma counter_35_stopped: "\<not> timer_active (counter_after 51 (animateStatValue ''3.5+''))"
proof -
  have "length (stat_frames 52 (animateStatValue ''3.5+'')) = 51"
    unfolding stat_frames_35 by simp
  then show ?thesis
    using stat_frames_stopped [of 52 "animateStatValue ''3.5+''"] by simp
qed

text \<open>
  Claim C10, as the code has it. Let the text contain a decimal point and parse as a
  number. Then after every run of the callback the element's text is \<^verbatim>\<open>toFixed(2)\<close> of the
  running value, whatever else the text contained; once the interval is cleared it is
  \<^verbatim>\<open>toFixed(2)\<close> of the parsed number. Such a text is never empty and never ends in \<open>+\<close>, so
  it differs from an original text that ends in \<open>+\<close>. Where the running value is below
  \<open>10 ^ 21\<close> in magnitude the text consists of digits, a point before the last two of them
  and possibly a minus sign.
\<close>

theorem counter_point_before_plus:
  assumes "CHR ''.'' \<in> set txt" and "parseFloat txt \<noteq> NaN"
  shows "(\<forall>n. 0 < n \<longrightarrow>
            textContent (counter_after n (animateStatValue txt))
              = toFixed2 (currentValue (counter_after n (animateStatValue txt)))
            \<and> textContent (counter_after n (animateStatValue txt)) \<noteq> []
            \<and> last (textContent (counter_after n (animateStatValue txt))) \<noteq> CHR ''+'')
     \<and> (\<forall>n k. k < length (stat_frames n (animateStatValue txt)) \<longrightarrow>
            stat_frames n (animateStatValue txt) ! k
              = toFixed2 (currentValue (counter_after (Suc k) (animateStatValue txt))))
     \<and> (\<forall>n. \<not> timer_active (counter_after n (animateStatValue txt)) \<longrightarrow>
            textContent (counter_after n (animateStatValue txt)) = toFixed2 (parseFloat txt))
     \<and> (\<forall>n. 0 < n \<and> txt \<noteq> [] \<and> last txt = CHR ''+'' \<longrightarrow>
            textContent (counter_after n (animateStatValue txt)) \<noteq> txt)
     \<and> (\<forall>n a. 0 < n \<and> currentValue (counter_after n (animateStatValue txt)) = Fin a
              \<and> \<bar>a\<bar> < 10 ^ 21 \<longrightarrow>
            (\<forall>c \<in> set (textContent (counter_after n (animateStatValue txt))).
                c \<in> set ''-.0123456789'')
            \<and> 3 \<le> length (textContent (counter_after n (animateStatValue txt)))
            \<and> textContent (counter_after n (animateStatValue txt))
                 ! (length (textContent (counter_after n (animateStatValue txt))) - 3) = CHR ''.'')"
proof -
  let ?c = "animateStatValue txt"
  have act: "timer_active ?c" using assms(2) by (simp add: animate_fields)
  have r: "textContent (counter_after n ?c) = toFixed2 (currentValue (counter_after n ?c))"
    if "0 < n" for n
    using counter_after_rendered [OF act that] assms(1)
    by (simp add: animate_fields counter_format_def)
  have e: "textContent (counter_after n ?c) \<noteq> []
      \<and> last (textContent (counter_after n ?c)) \<noteq> CHR ''+''" if "0 < n" for n
    unfolding r [OF that] by (rule toFixed2_ends_in_digit)
  have f: "stat_frames n ?c ! k = toFixed2 (currentValue (counter_after (Suc k) ?c))"
    if "k < length (stat_frames n ?c)" for n k
    using stat_frames_nth [OF that] r [of "Suc k"] by simp
  have d: "textContent (counter_after n ?c) = toFixed2 (parseFloat txt)"
    if "\<not> timer_active (counter_after n ?c)" for n
  proof -
    have "0 < n" using that act by (cases n) simp_all
    then show ?thesis
      using r counter_after_finished [OF act that] by (simp add: animate_fields)
  qed
  have p: "textContent (counter_after n ?c) \<noteq> txt"
    if "0 < n" "txt \<noteq> []" "last txt = CHR ''+''" for n
    using e [OF that(1)] that(3) by metis
  have s: "(\<forall>c \<in> set (textContent (counter_after n ?c)). c \<in> set ''-.0123456789'')
      \<and> 3 \<le> length (textContent (counter_after n ?c))
      \<and> textContent (counter_after n ?c) ! (length (textContent (counter_after n ?c)) - 3)
          = CHR ''.''"
    if "0 < n" "currentValue (counter_after n ?c) = Fin a" "\<bar>a\<bar> < 10 ^ 21" for n a
    unfolding r [OF that(1)] that(2)
    using toFixed2_two_decimals [OF that(3)] by blast
  have A: "\<forall>n. 0 < n \<longrightarrow>
            textContent (counter_after n ?c) = toFixed2 (currentValue (counter_after n ?c))
            \<and> textContent (counter_after n ?c) \<noteq> []
            \<and> last (textContent (counter_after n ?c)) \<noteq> CHR ''+''"
    using r e by simp
  have B: "\<forall>n k. k < length (stat_frames n ?c) \<longrightarrow>
            stat_frames n ?c ! k = toFixed2 (currentValue (counter_after (Suc k) ?c))"
    using f by simp
  have C: "\<forall>n. \<not> timer_active (counter_after n ?c) \<longrightarrow>
            textContent (counter_after n ?c) = toFixed2 (parseFloat txt)"
    using d by simp
  have D: "\<forall>n. 0 < n \<and> txt \<noteq> [] \<and> last txt = CHR ''+'' \<longrightarrow>
            textContent (counter_after n ?c) \<noteq> txt"
    using p by simp
  have E: "\<forall>n a. 0 < n \<and> currentValue (counter_after n ?c) = Fin a \<and> \<bar>a\<bar> < 10 ^ 21 \<longrightarrow>
            (\<forall>c \<in> set (textContent (counter_after n ?c)). c \<in> set ''-.0123456789'')
            \<and> 3 \<le> length (textContent (counter_after n ?c))
            \<and> textContent (counter_after n ?c)
                 ! (length (textContent (counter_after n ?c)) - 3) = CHR ''.''"
  proof (intro allI impI)
    fix n a
    assume h: "0 < n \<and> currentValue (counter_after n ?c) = Fin a \<and> \<bar>a\<bar> < 10 ^ 21"
    show "(\<forall>c \<in> set (textContent (counter_after n ?c)). c \<in> set ''-.0123456789'')
            \<and> 3 \<le> length (textContent (counter_after n ?c))
            \<and> textContent (counter_after n ?c)
                 ! (length (textContent (counter_after n ?c)) - 3) = CHR ''.''"
      by (rule s [of n a]) (use h in simp_all)
  qed
  show ?thesis
    by (rule conjI [OF A conjI [OF B conjI [OF C conjI [OF D E]]]])
qed

theorem counter_point_before_plus_witness:
  "textContent (counter_after 51 (animateStatValue ''3.5+'')) = ''3.50''
   \<and> textContent (counter_after 51 (animateStatValue ''3.5+'')) \<noteq> ''3.5+''
   \<and> stat_frames 2 (animateStatValue ''3.5+'') ! 0
       = toFixed2 (currentValue (counter_after 1 (animateStatValue ''3.5+'')))"
proof -
  have a: "CHR ''.'' \<in> set ''3.5+''" by simp
  have b: "parseFloat ''3.5+'' \<noteq> NaN" by (simp add: parseFloat_35)
  have l: "0 < length (stat_frames 2 (animateStatValue ''3.5+''))"
    by (simp add: numeral_2_eq_2 animate_fields b)
  have t: "toFixed2 (Fin (7 / 2)) = ''3.50''"
    by (simp add: format_eval floor_rat_numeral)
  note T = counter_point_before_plus [OF a b]
  have "textContent (counter_after 51 (animateStatValue ''3.5+'')) = toFixed2 (parseFloat ''3.5+'')"
    using T [THEN conjunct2, THEN conjunct2, THEN conjunct1, THEN spec, of 51]
      counter_35_stopped by blast
  then have x: "textContent (counter_after 51 (animateStatValue ''3.5+'')) = ''3.50''"
    by (simp only: parseFloat_35 t)
  have y: "stat_frames 2 (animateStatValue ''3.5+'') ! 0
       = toFixed2 (currentValue (counter_after (Suc 0) (animateStatValue ''3.5+'')))"
    using T [THEN conjunct2, THEN conjunct1, THEN spec [of _ 2], THEN spec [of _ 0]] l
    by blast
  show ?thesis using x y by simp
qed

text \<open>
  The claim as stated fails for a text with a point and a trailing \<open>+\<close> that does not
  parse as a number: nothing is rendered and the text stays as it was.
\<close>

theorem counter_point_before_plus_counterexample:
  "CHR ''.'' \<in> set ''$1.5M+'' \<and> last ''$1.5M+'' = CHR ''+''
   \<and> parseFloat ''$1.5M+'' = NaN
   \<and> stat_frames 50 (animateStatValue ''$1.5M+'') = []
   \<and> textContent (counter_after 50 (animateStatValue ''$1.5M+'')) = ''$1.5M+''"
proof -
  have p: "parseFloat ''$1.5M+'' = NaN"
    by (simp add: parse_eval)
  then have i: "\<not> timer_active (counter_after 0 (animateStatValue ''$1.5M+''))"
    by (simp add: animate_fields)
  then have "stat_frames 50 (animateStatValue ''$1.5M+'') = []"
    by (simp add: stat_frames_inactive)
  moreover have "counter_after 50 (animateStatValue ''$1.5M+'') = animateStatValue ''$1.5M+''"
    using counter_after_stopped [OF i, of 50] by simp
  ultimately show ?thesis using p by (simp add: animate_fields)
qed

end
